theory Spec2Isabelle
  imports Complex_Main "HOL-Library.Multiset" "HOL-Library.Log_Nat"
begin

section \<open>The LLMWS inference client\<close>

text \<open>
  A shallow embedding of the WebSocket inference client (\<^verbatim>\<open>runLlmwsAgent\<close> and its
  helpers): the message queue of one connection, one protocol attempt with its
  token-budget retry, the ordering of the candidate servers, the failover loop over
  them, the assembly of the outgoing prompt and the transcript appended afterwards.

  Conventions of the embedding.
  \<^item> A string is the list of its code units; \<^typ>\<open>char\<close> covers the code units
    below 256.
  \<^item> A finite number (one that passes \<^verbatim>\<open>Number.isFinite\<close>) is a \<^typ>\<open>rat\<close>, as
    every double is one; sums and products of numbers are rounded as doubles are and
    can be infinite.
  \<^item> A thrown error is the \<open>Inl\<close> of a sum; an absent (\<^verbatim>\<open>undefined\<close>) value is
    \<open>None\<close>.
  \<^item> What the network, the clock, the file system and the random generator supply
    is an explicit argument of the function that consumes it.
\<close>

subsection \<open>Strings\<close>

text \<open>White space as \<^verbatim>\<open>String.prototype.trim\<close> and the regular expression class
  \<^verbatim>\<open>\s\<close> see it: TAB, LF, VT, FF, CR, SP and NBSP.\<close>

definition js_space :: "char \<Rightarrow> bool" where
  "js_space c \<longleftrightarrow> c \<in> set [CHR 0x09, CHR 0x0A, CHR 0x0B, CHR 0x0C, CHR 0x0D, CHR 0x20, CHR 0xA0]"

definition trim :: "string \<Rightarrow> string" where
  "trim s = rev (dropWhile js_space (rev (dropWhile js_space s)))"

text \<open>\<^verbatim>\<open>a.includes(b)\<close>: \<open>b\<close> occurs in \<open>a\<close> as a contiguous run.\<close>

fun js_includes :: "string \<Rightarrow> string \<Rightarrow> bool" where
  "js_includes [] b = (b = [])"
| "js_includes (c # cs) b = (take (length b) (c # cs) = b \<or> js_includes cs b)"

text \<open>\<^verbatim>\<open>parts.join(sep)\<close>.\<close>

fun join :: "string \<Rightarrow> string list \<Rightarrow> string" where
  "join sep [] = []"
| "join sep [x] = x"
| "join sep (x # y # ys) = x @ sep @ join sep (y # ys)"

subsection \<open>Numbers\<close>

text \<open>
  The numbers of the language are IEEE 754 doubles. A sum or a product of two finite
  numbers is the exact result rounded to the nearest double, to the one with the even
  significand when two are equally near, and to an infinity when the rounded
  magnitude reaches 2^1024. The doubles of a binade from 2^e up to 2^(e+1) are the
  multiples of 2^(e-52); below 2^(-1022) they are the multiples of 2^(-1074).
\<close>

datatype js_number = Finite rat | PosInfinity | NegInfinity

text \<open>For \<open>x > 0\<close>, the \<open>e\<close> with 2^e \<le> x < 2^(e+1).\<close>

definition ilog2 :: "rat \<Rightarrow> int" where
  "ilog2 x =
     (let (p, q) = quotient_of x; e = bitlen p - bitlen q
      in if 2 powi e \<le> x then e else e - 1)"

definition round_half_even :: "rat \<Rightarrow> int" where
  "round_half_even r =
     (let f = \<lfloor>r\<rfloor>; d = r - of_int f
      in if d < 1 / 2 then f else if 1 / 2 < d then f + 1 else if even f then f else f + 1)"

definition round_double :: "rat \<Rightarrow> js_number" where
  "round_double x =
     (if x = 0 then Finite 0
      else let e = max (ilog2 \<bar>x\<bar>) (- 1022);
               ulp = 2 powi (e - 52);
               y = of_int (round_half_even (x / ulp)) * ulp
           in if 2 powi 1024 \<le> \<bar>y\<bar> then (if 0 < x then PosInfinity else NegInfinity)
              else Finite y)"

text \<open>\<^verbatim>\<open>a * b\<close> and \<^verbatim>\<open>a + b\<close> for finite \<open>a\<close> and \<open>b\<close>; \<^verbatim>\<open>x + b\<close> for an \<open>x\<close> that such
  an operation returned; \<^verbatim>\<open>Math.floor(x)\<close>; and \<^verbatim>\<open>x > 0\<close>.\<close>

definition js_times :: "rat \<Rightarrow> rat \<Rightarrow> js_number" where
  "js_times a b = round_double (a * b)"

definition js_plus :: "rat \<Rightarrow> rat \<Rightarrow> js_number" where
  "js_plus a b = round_double (a + b)"

fun js_add :: "js_number \<Rightarrow> rat \<Rightarrow> js_number" where
  "js_add (Finite a) b = js_plus a b"
| "js_add PosInfinity b = PosInfinity"
| "js_add NegInfinity b = NegInfinity"

fun js_floor :: "js_number \<Rightarrow> js_number" where
  "js_floor (Finite a) = Finite (of_int \<lfloor>a\<rfloor>)"
| "js_floor PosInfinity = PosInfinity"
| "js_floor NegInfinity = NegInfinity"

fun js_positive :: "js_number \<Rightarrow> bool" where
  "js_positive (Finite a) = (0 < a)"
| "js_positive PosInfinity = True"
| "js_positive NegInfinity = False"

subsection \<open>Parsed values and message records\<close>

datatype json =
    JNull
  | JBool bool
  | JNum rat
  | JStr string
  | JArr "json list"
  | JObj "(string \<times> json) list"

text \<open>\<^verbatim>\<open>LlmwsParsedMessage = Record<string, unknown>\<close>: the fields of a parsed
  object, each key once; \<^verbatim>\<open>record[key]\<close> is \<^term>\<open>map_of\<close>.\<close>

type_synonym message = "(string \<times> json) list"

definition readString :: "message \<Rightarrow> string \<Rightarrow> string option" where
  "readString record key =
     (case map_of record key of
        Some (JStr v) \<Rightarrow> (let trimmed = trim v in if trimmed = [] then None else Some trimmed)
      | _ \<Rightarrow> None)"

definition readNumber :: "message \<Rightarrow> string \<Rightarrow> rat option" where
  "readNumber record key =
     (case map_of record key of
        Some (JNum v) \<Rightarrow> Some v
      | _ \<Rightarrow> None)"

subsection \<open>The message queue of one connection\<close>

text \<open>
  \<^verbatim>\<open>LlmwsMessageQueue\<close>. The class holds the buffered messages, the waiters of the
  \<^verbatim>\<open>next()\<close> calls that are still pending (each is named by a number here; its timer
  is the \<open>Timer\<close> event of that number) and the terminal error. An operation returns
  the promises it settles, each with its settlement.
\<close>

record queue_state =
  queue :: "message list"
  waiters :: "nat list"
  terminalError :: "string option"

datatype settlement = Resolved message | Rejected string

definition new_queue :: queue_state where
  "new_queue = \<lparr>queue = [], waiters = [], terminalError = None\<rparr>"

text \<open>\<^verbatim>\<open>next(timeoutMs)\<close>, called for the promise \<open>w\<close>: a buffered message first, then
  the terminal error, else the call pends as a waiter.\<close>

definition queue_next :: "nat \<Rightarrow> queue_state \<Rightarrow> (nat \<times> settlement) list \<times> queue_state" where
  "queue_next w q =
     (case queue q of
        item # rest \<Rightarrow> ([(w, Resolved item)], q\<lparr>queue := rest\<rparr>)
      | [] \<Rightarrow>
         (case terminalError q of
            Some e \<Rightarrow> ([(w, Rejected e)], q)
          | None \<Rightarrow> ([], q\<lparr>waiters := waiters q @ [w]\<rparr>)))"

text \<open>The timer of waiter \<open>w\<close> fires (it is cleared when the waiter is resolved or
  rejected, so it fires only while \<open>w\<close> is pending); \<open>msg\<close> is the text
  \<^verbatim>\<open>LLMWS read timeout (<timeoutMs>ms)\<close>.\<close>

definition queue_timer :: "nat \<Rightarrow> string \<Rightarrow> queue_state \<Rightarrow> (nat \<times> settlement) list \<times> queue_state" where
  "queue_timer w msg q =
     (if w \<in> set (waiters q)
      then ([(w, Rejected msg)], q\<lparr>waiters := remove1 w (waiters q)\<rparr>)
      else ([], q))"

definition queue_push :: "message \<Rightarrow> queue_state \<Rightarrow> (nat \<times> settlement) list \<times> queue_state" where
  "queue_push m q =
     (case waiters q of
        w # rest \<Rightarrow> ([(w, Resolved m)], q\<lparr>waiters := rest\<rparr>)
      | [] \<Rightarrow> ([], q\<lparr>queue := queue q @ [m]\<rparr>))"

definition queue_fail :: "string \<Rightarrow> queue_state \<Rightarrow> (nat \<times> settlement) list \<times> queue_state" where
  "queue_fail error q =
     (let te = (case terminalError q of None \<Rightarrow> error | Some e \<Rightarrow> e)
      in (map (\<lambda>w. (w, Rejected te)) (waiters q),
          q\<lparr>terminalError := Some te, waiters := []\<rparr>))"

text \<open>What can happen to a queue: a \<^verbatim>\<open>next()\<close> call, a parsed message, a socket
  error or close, a timer.\<close>

datatype queue_op = Next nat | Push message | Fail string | Timer nat string

fun queue_step :: "queue_op \<Rightarrow> queue_state \<Rightarrow> (nat \<times> settlement) list \<times> queue_state" where
  "queue_step (Next w) q = queue_next w q"
| "queue_step (Push m) q = queue_push m q"
| "queue_step (Fail e) q = queue_fail e q"
| "queue_step (Timer w msg) q = queue_timer w msg q"

fun queue_run :: "queue_op list \<Rightarrow> queue_state \<Rightarrow> (nat \<times> settlement) list \<times> queue_state" where
  "queue_run [] q = ([], q)"
| "queue_run (x # xs) q =
     (let (s, q') = queue_step x q; (s', q'') = queue_run xs q' in (s @ s', q''))"

subsection \<open>Errors of one attempt\<close>

text \<open>Every \<^verbatim>\<open>throw\<close> and rejected promise of \<^verbatim>\<open>openLlmwsSocket\<close>, of the queue and
  of \<^verbatim>\<open>runLlmwsAttempt\<close>; \<open>error_message\<close> is the \<^verbatim>\<open>message\<close> of the error, with
  \<open>num\<close> the conversion of a number to its text in a template literal.\<close>

datatype llmws_error =
    ConnectTimeout int
  | SocketError string
  | ReadTimeout int
  | WelcomeTimeout
  | StreamTimeout
  | BudgetInvalid rat rat
  | ServerError string
  | RetryFailed

fun error_message :: "(rat \<Rightarrow> string) \<Rightarrow> llmws_error \<Rightarrow> string" where
  "error_message num (ConnectTimeout ms) = ''LLMWS connect timeout ('' @ num (of_int ms) @ ''ms)''"
| "error_message num (SocketError msg) = msg"
| "error_message num (ReadTimeout ms) = ''LLMWS read timeout ('' @ num (of_int ms) @ ''ms)''"
| "error_message num WelcomeTimeout = ''LLMWS welcome timeout''"
| "error_message num StreamTimeout = ''LLMWS stream timeout''"
| "error_message num (BudgetInvalid tokensIn maxTokens) =
     ''LLMWS server token budget invalid (tokens_in='' @ num tokensIn @ '', max_tokens='' @ num maxTokens
       @ ''). Configure llmws.config.maxNewTokens (or update llmws_server.py).''"
| "error_message num (ServerError msg) = msg"
| "error_message num RetryFailed = ''LLMWS retry failed: server did not accept adjusted token budget''"

subsection \<open>One connection as the network scripts it\<close>

text \<open>
  What one socket does, as the attempt sees it: whether it opens, the clock
  (\<^verbatim>\<open>Date.now()\<close>, in milliseconds) when the handshake payload has gone out, and
  the parsed messages and the socket error or close in their order of arrival, each
  with the clock reading of its arrival. \<open>uuid\<close> is what \<^verbatim>\<open>randomUUID()\<close> returns on
  this connection. A send on an open socket succeeds and the code between two
  \<^verbatim>\<open>await\<close>s takes no time.
\<close>

datatype conn_event = Message message | Failure string

record conn =
  open_outcome :: "llmws_error option"
  started_at :: int
  events :: "(int \<times> conn_event) list"
  uuid :: string

datatype next_result = Delivered message | Thrown llmws_error

text \<open>
  The events of a script are in their order of arrival: at clock \<open>now\<close> an event has
  arrived when its clock reading, and that of every event before it, is not after
  \<open>now\<close>. The queue has buffered the messages that have arrived and recorded the
  first failure that has; a message that arrives after a failure is buffered like any
  other (\<^verbatim>\<open>push\<close> does not look at \<^verbatim>\<open>terminalError\<close>). The events still to be
  consumed are the messages not handed out yet and all the failures.

  \<open>buffered\<close> is the oldest buffered message at clock \<open>now\<close>, with the events that
  remain when it is taken; \<open>recorded_error\<close> is the terminal error at clock \<open>now\<close>.
\<close>

fun buffered ::
  "int \<Rightarrow> (int \<times> conn_event) list \<Rightarrow> (message \<times> (int \<times> conn_event) list) option" where
  "buffered now [] = None"
| "buffered now ((arrival, ev) # rest) =
     (if now < arrival then None
      else (case ev of
              Message m \<Rightarrow> Some (m, rest)
            | Failure e \<Rightarrow>
                (case buffered now rest of
                   None \<Rightarrow> None
                 | Some (m, rest') \<Rightarrow> Some (m, (arrival, ev) # rest'))))"

fun recorded_error :: "int \<Rightarrow> (int \<times> conn_event) list \<Rightarrow> string option" where
  "recorded_error now [] = None"
| "recorded_error now ((arrival, ev) # rest) =
     (if now < arrival then None
      else (case ev of
              Failure e \<Rightarrow> Some e
            | Message m \<Rightarrow> recorded_error now rest))"

text \<open>\<^verbatim>\<open>setTimeout(callback, delay)\<close>: the runtime sets a delay below 1 or above
  2^31 - 1 to 1.\<close>

definition setTimeout_delay :: "int \<Rightarrow> int" where
  "setTimeout_delay delay = (if delay < 1 \<or> 2147483647 < delay then 1 else delay)"

text \<open>
  \<^verbatim>\<open>await queue.next(timeoutMs)\<close> at clock \<open>now\<close>, against the events still to be
  consumed (lines 423-450): a buffered message is handed out at once; with none
  buffered, the terminal error is thrown at once; otherwise the call waits for the
  next event, and its timer of \<^verbatim>\<open>Math.max(1, timeoutMs)\<close> fires first when the event
  is not there before. The result comes with the clock after the wait.
  \<open>timed_next_queue\<close> below relates this to the operations of the queue.
\<close>

definition timed_next ::
  "int \<Rightarrow> int \<Rightarrow> (int \<times> conn_event) list \<Rightarrow> next_result \<times> int \<times> (int \<times> conn_event) list" where
  "timed_next now timeoutMs evs =
     (case buffered now evs of
        Some (m, evs') \<Rightarrow> (Delivered m, now, evs')
      | None \<Rightarrow>
         (case recorded_error now evs of
            Some e \<Rightarrow> (Thrown (SocketError e), now, evs)
          | None \<Rightarrow>
             (let fires = now + setTimeout_delay (max 1 timeoutMs) in
              case evs of
                [] \<Rightarrow> (Thrown (ReadTimeout timeoutMs), fires, [])
              | (arrival, ev) # rest \<Rightarrow>
                  if fires \<le> arrival then (Thrown (ReadTimeout timeoutMs), fires, evs)
                  else (case ev of
                          Message m \<Rightarrow> (Delivered m, arrival, rest)
                        | Failure e \<Rightarrow> (Thrown (SocketError e), arrival, evs)))))"

lemma buffered_shorter: "buffered now evs = Some (m, evs') \<Longrightarrow> length evs' < length evs"
  by (induction now evs arbitrary: evs' rule: buffered.induct)
     (auto split: if_splits conn_event.splits option.splits)

lemma timed_next_shorter [termination_simp]:
  "timed_next now timeoutMs evs = (Delivered m, now', evs') \<Longrightarrow> length evs' < length evs"
  by (auto simp: timed_next_def Let_def dest: buffered_shorter
           split: list.splits if_splits conn_event.splits option.splits)

subsection \<open>One attempt\<close>

record generation_config =
  max_new_tokens :: "js_number option"
  temperature :: "rat option"
  top_p :: "rat option"
  top_k :: "rat option"
  repetition_penalty :: "rat option"
  do_sample :: "bool option"

record attempt_params =
  target :: string
  connectTimeoutMs :: int
  readTimeoutMs :: int
  resumeSessionId :: "string option"
  systemPrompt :: string
  userPrompt :: string
  media :: "json list"
  generation :: generation_config

record usage_info =
  input' :: "rat option"
  output' :: "rat option"
  total' :: "js_number option"

record attempt_result =
  text' :: string
  sessionId :: "string option"
  usage :: "usage_info option"

text \<open>The welcome wait (lines 981-996): one deadline, fixed before the loop.\<close>

function await_welcome ::
  "int \<Rightarrow> int \<Rightarrow> (int \<times> conn_event) list
     \<Rightarrow> (llmws_error + string option) \<times> int \<times> (int \<times> conn_event) list" where
  "await_welcome welcomeDeadline now evs =
     (let remaining = welcomeDeadline - now in
      if remaining \<le> 0 then (Inl WelcomeTimeout, now, evs)
      else (case timed_next now remaining evs of
              (Thrown e, now', evs') \<Rightarrow> (Inl e, now', evs')
            | (Delivered m, now', evs') \<Rightarrow>
                if readString m ''type'' \<noteq> Some ''welcome''
                then await_welcome welcomeDeadline now' evs'
                else (Inr (readString m ''session_id''), now', evs')))"
  by pat_completeness auto
termination
  by (relation "measure (\<lambda>(d, n, evs). length evs)") (auto dest: timed_next_shorter [OF sym])

declare await_welcome.simps [simp del]

text \<open>The variables of the streaming loop (lines 1012-1015).\<close>

record stream_vars =
  inputTokens :: "rat option"
  outputTokens :: "rat option"
  acc_text :: string

datatype frame_step =
    Continue stream_vars
  | Finish stream_vars
  | Retry generation_config
  | Throw llmws_error

text \<open>The body of the streaming loop for one received message (lines 1024-1080).\<close>

definition handle_frame :: "bool \<Rightarrow> generation_config \<Rightarrow> stream_vars \<Rightarrow> message \<Rightarrow> frame_step" where
  "handle_frame retriedForTokenBudget gen v m =
     (let type = readString m ''type'' in
      if type = Some ''start'' then
        (let tokensIn = readNumber m ''tokens_in'';
             maxTokens = readNumber m ''max_tokens'';
             v' = (case tokensIn of Some n \<Rightarrow> v\<lparr>inputTokens := Some n\<rparr> | None \<Rightarrow> v)
         in case (tokensIn, maxTokens) of
              (Some tin, Some mt) \<Rightarrow>
                if \<not> retriedForTokenBudget \<and> 0 < tin \<and> mt \<le> tin
                then (case max_new_tokens gen of
                        Some (Finite desiredNewTokens) \<Rightarrow>
                          if desiredNewTokens \<le> 0 then Throw (BudgetInvalid tin mt)
                          else Retry (gen\<lparr>max_new_tokens :=
                                 Some (js_floor (js_add (js_times tin 2) desiredNewTokens))\<rparr>)
                      | _ \<Rightarrow> Throw (BudgetInvalid tin mt))
                else Continue v'
            | _ \<Rightarrow> Continue v')
      else if type = Some ''token'' then
        (case map_of m ''data'' of
           Some (JStr chunkValue) \<Rightarrow> Continue (v\<lparr>acc_text := acc_text v @ chunkValue\<rparr>)
         | _ \<Rightarrow> Continue v)
      else if type = Some ''done'' then
        Finish (case readNumber m ''total_tokens'' of
                  Some n \<Rightarrow> v\<lparr>outputTokens := Some n\<rparr>
                | None \<Rightarrow> v)
      else if type = Some ''error'' then
        Throw (ServerError (case readString m ''message'' of
                              Some errorMessage \<Rightarrow> errorMessage
                            | None \<Rightarrow> ''LLMWS returned an error''))
      else Continue v)"

datatype stream_result =
    Completed stream_vars
  | NeedsRetry generation_config
  | Failed llmws_error

text \<open>The streaming loop (lines 1011-1081): the deadline is set again after every
  received message.\<close>

function stream_loop ::
  "int \<Rightarrow> bool \<Rightarrow> generation_config \<Rightarrow> int \<Rightarrow> int \<Rightarrow> stream_vars
     \<Rightarrow> (int \<times> conn_event) list \<Rightarrow> stream_result \<times> int \<times> (int \<times> conn_event) list" where
  "stream_loop readTimeout retried gen readDeadline now v evs =
     (let remaining = readDeadline - now in
      if remaining \<le> 0 then (Failed StreamTimeout, now, evs)
      else (case timed_next now remaining evs of
              (Thrown e, now', evs') \<Rightarrow> (Failed e, now', evs')
            | (Delivered m, now', evs') \<Rightarrow>
                (case handle_frame retried gen v m of
                   Continue v' \<Rightarrow>
                     stream_loop readTimeout retried gen (now' + readTimeout) now' v' evs'
                 | Finish v' \<Rightarrow> (Completed v', now', evs')
                 | Retry g \<Rightarrow> (NeedsRetry g, now', evs')
                 | Throw e \<Rightarrow> (Failed e, now', evs'))))"
  by pat_completeness auto
termination
  by (relation "measure (\<lambda>(rt, r, g, d, n, v, evs). length evs)") (auto dest: timed_next_shorter [OF sym])

declare stream_loop.simps [simp del]

text \<open>The value returned after \<^verbatim>\<open>done\<close> (lines 1087-1103).\<close>

definition attempt_result_of :: "string \<Rightarrow> stream_vars \<Rightarrow> attempt_result" where
  "attempt_result_of sid v =
     \<lparr>text' = trim (acc_text v),
      sessionId = Some sid,
      usage =
        (if inputTokens v \<noteq> None \<or> outputTokens v \<noteq> None
         then Some \<lparr>input' = inputTokens v,
                    output' = outputTokens v,
                    total' =
                      (let s = js_plus (case inputTokens v of Some n \<Rightarrow> n | None \<Rightarrow> 0)
                                       (case outputTokens v of Some n \<Rightarrow> n | None \<Rightarrow> 0)
                       in if js_positive s then Some s else None)\<rparr>
         else None)\<rparr>"

text \<open>What the attempt does to the outside, in order.\<close>

datatype action =
    Open string
  | SendHello "string option"
  | SendInference string string "json list" generation_config
  | Close

datatype conn_result =
    Returned attempt_result
  | Restart generation_config
  | Raised llmws_error

text \<open>One pass of the \<^verbatim>\<open>for\<close> loop of \<^verbatim>\<open>runLlmwsAttempt\<close> (lines 971-1106): open, hello,
  welcome wait, request, streaming; the socket is closed on every way out of the
  \<^verbatim>\<open>try\<close>.\<close>

definition run_connection ::
  "attempt_params \<Rightarrow> bool \<Rightarrow> generation_config \<Rightarrow> conn \<Rightarrow> conn_result \<times> action list" where
  "run_connection p retried gen c =
     (case open_outcome c of
        Some e \<Rightarrow> (Raised e, [Open (target p)])
      | None \<Rightarrow>
         (let resume = (case resumeSessionId p of
                          None \<Rightarrow> None
                        | Some s \<Rightarrow> if trim s = [] then None else Some (trim s));
              hello = [Open (target p), SendHello resume];
              t0 = started_at c
          in case await_welcome (t0 + readTimeoutMs p) t0 (events c) of
               (Inl e, t1, evs1) \<Rightarrow> (Raised e, hello @ [Close])
             | (Inr sid, t1, evs1) \<Rightarrow>
                 (let sessionId = (case sid of Some s \<Rightarrow> s | None \<Rightarrow> uuid c);
                      sent = hello @ [SendInference (systemPrompt p) (userPrompt p) (media p) gen, Close]
                  in case stream_loop (readTimeoutMs p) retried gen (t1 + readTimeoutMs p) t1
                            \<lparr>inputTokens = None, outputTokens = None, acc_text = []\<rparr> evs1 of
                       (Failed e, t2, evs2) \<Rightarrow> (Raised e, sent)
                     | (NeedsRetry g, t2, evs2) \<Rightarrow> (Restart g, sent)
                     | (Completed v, t2, evs2) \<Rightarrow> (Returned (attempt_result_of sessionId v), sent))))"

text \<open>\<^verbatim>\<open>runLlmwsAttempt\<close>: at most two passes; \<open>net i\<close> is the connection that the
  pass of index \<open>i\<close> opens.\<close>

function attempt_from ::
  "attempt_params \<Rightarrow> (nat \<Rightarrow> conn) \<Rightarrow> nat \<Rightarrow> bool \<Rightarrow> generation_config
     \<Rightarrow> (llmws_error + attempt_result) \<times> action list" where
  "attempt_from p net attemptIndex retried gen =
     (if attemptIndex < 2 then
        (case run_connection p retried gen (net attemptIndex) of
           (Returned r, tr) \<Rightarrow> (Inr r, tr)
         | (Raised e, tr) \<Rightarrow> (Inl e, tr)
         | (Restart g, tr) \<Rightarrow>
             (let (res, tr') = attempt_from p net (attemptIndex + 1) True g in (res, tr @ tr')))
      else (Inl RetryFailed, []))"
  by pat_completeness auto
termination
  by (relation "measure (\<lambda>(p, net, i, r, g). 2 - i)") auto

declare attempt_from.simps [simp del]

definition runLlmwsAttempt ::
  "attempt_params \<Rightarrow> (nat \<Rightarrow> conn) \<Rightarrow> (llmws_error + attempt_result) \<times> action list" where
  "runLlmwsAttempt p net = attempt_from p net 0 False (generation p)"

subsection \<open>Reading a script and a trace\<close>

text \<open>
  The vocabulary in which the properties of an attempt are stated: the scripted
  messages with their arrival times, the frames between the welcome and the first
  \<^verbatim>\<open>done\<close>, what a frame carries, and what a trace shows.
\<close>

text \<open>A run of messages, each with its arrival time, as events of a script.\<close>

definition timed :: "(int \<times> message) list \<Rightarrow> (int \<times> conn_event) list" where
  "timed xs = map (\<lambda>(a, m). (a, Message m)) xs"

text \<open>The messages of a script, in order of arrival.\<close>

definition event_messages :: "(int \<times> conn_event) list \<Rightarrow> message list" where
  "event_messages evs =
     List.map_filter (\<lambda>(a, ev). case ev of Message m \<Rightarrow> Some m | Failure e \<Rightarrow> None) evs"

definition script_messages :: "conn \<Rightarrow> message list" where
  "script_messages c = event_messages (events c)"

text \<open>The events that have arrived at clock \<open>now\<close>, what each does to the queue, and
  how the queue settles the promise of a \<^verbatim>\<open>next()\<close> call with a result.\<close>

definition arrived :: "int \<Rightarrow> (int \<times> conn_event) list \<Rightarrow> (int \<times> conn_event) list" where
  "arrived now evs = takeWhile (\<lambda>(arrival, ev). arrival \<le> now) evs"

fun event_op :: "int \<times> conn_event \<Rightarrow> queue_op" where
  "event_op (arrival, Message m) = Push m"
| "event_op (arrival, Failure e) = Fail e"

fun settled :: "(rat \<Rightarrow> string) \<Rightarrow> next_result \<Rightarrow> settlement" where
  "settled num (Delivered m) = Resolved m"
| "settled num (Thrown e) = Rejected (error_message num e)"

text \<open>The frames after the first welcome; those of them before the first \<^verbatim>\<open>done\<close>;
  and that \<^verbatim>\<open>done\<close> frame.\<close>

definition frames_after_welcome :: "message list \<Rightarrow> message list" where
  "frames_after_welcome ms = tl (dropWhile (\<lambda>m. readString m ''type'' \<noteq> Some ''welcome'') ms)"

definition stream_frames :: "message list \<Rightarrow> message list" where
  "stream_frames ms = takeWhile (\<lambda>m. readString m ''type'' \<noteq> Some ''done'') (frames_after_welcome ms)"

definition done_frame :: "message list \<Rightarrow> message option" where
  "done_frame ms = find (\<lambda>m. readString m ''type'' = Some ''done'') (frames_after_welcome ms)"

text \<open>The string payload of a \<^verbatim>\<open>token\<close> frame (empty for any other frame, and when
  \<^verbatim>\<open>data\<close> is not a string).\<close>

definition token_payload :: "message \<Rightarrow> string" where
  "token_payload m =
     (if readString m ''type'' = Some ''token''
      then (case map_of m ''data'' of Some (JStr s) \<Rightarrow> s | _ \<Rightarrow> [])
      else [])"

text \<open>The numeric \<^verbatim>\<open>tokens_in\<close> of a \<^verbatim>\<open>start\<close> frame, and the latest one reported
  in a run of frames.\<close>

definition tokens_in_of :: "message \<Rightarrow> rat option" where
  "tokens_in_of m = (if readString m ''type'' = Some ''start'' then readNumber m ''tokens_in'' else None)"

definition start_tokens_in :: "message list \<Rightarrow> rat option" where
  "start_tokens_in ms =
     (case List.map_filter (\<lambda>m. if readString m ''type'' = Some ''start'' then readNumber m ''tokens_in'' else None) ms of
        [] \<Rightarrow> None
      | ns \<Rightarrow> Some (last ns))"

text \<open>A \<^verbatim>\<open>start\<close> frame whose budget \<^verbatim>\<open>max_tokens\<close> does not exceed a positive
  \<^verbatim>\<open>tokens_in\<close>; and a frame that the streaming loop passes over whether it has
  retried or not.\<close>

definition bad_budget :: "message \<Rightarrow> bool" where
  "bad_budget m \<longleftrightarrow>
     readString m ''type'' = Some ''start'' \<and>
     (case (readNumber m ''tokens_in'', readNumber m ''max_tokens'') of
        (Some tin, Some mt) \<Rightarrow> 0 < tin \<and> mt \<le> tin
      | _ \<Rightarrow> False)"

definition passes :: "message \<Rightarrow> bool" where
  "passes m \<longleftrightarrow>
     readString m ''type'' \<noteq> Some ''done'' \<and> readString m ''type'' \<noteq> Some ''error'' \<and> \<not> bad_budget m"

text \<open>The clock after messages have been received from clock \<open>now\<close> on; and: every
  message arrives less than \<open>rt\<close> after the one before it was received (the first
  one less than \<open>rt\<close> after \<open>prev\<close>).\<close>

definition clock_after :: "int \<Rightarrow> (int \<times> 'a) list \<Rightarrow> int" where
  "clock_after now xs = fold (\<lambda>(a, x) n. max n a) xs now"

fun arrive_idle :: "int \<Rightarrow> int \<Rightarrow> (int \<times> 'a) list \<Rightarrow> bool" where
  "arrive_idle rt prev [] = True"
| "arrive_idle rt prev ((a, x) # xs) = (a < prev + rt \<and> arrive_idle rt (max prev a) xs)"

text \<open>The targets of the sockets opened, and the generation configurations sent, in a
  trace.\<close>

fun opens :: "action list \<Rightarrow> string list" where
  "opens [] = []"
| "opens (Open u # tr) = u # opens tr"
| "opens (a # tr) = opens tr"

fun sent_configs :: "action list \<Rightarrow> generation_config list" where
  "sent_configs [] = []"
| "sent_configs (SendInference s u m g # tr) = g # sent_configs tr"
| "sent_configs (a # tr) = sent_configs tr"

subsection \<open>Sample servers\<close>

text \<open>The test case of the retry: a prompt of 100 tokens, a reported budget of 10 and
  a configured \<^verbatim>\<open>maxNewTokens\<close> of 32; and the scripts of some servers.\<close>

definition ex_generation :: generation_config where
  "ex_generation =
     \<lparr>max_new_tokens = Some (Finite 32), temperature = None, top_p = None, top_k = None,
      repetition_penalty = None, do_sample = None\<rparr>"

definition ex_params :: attempt_params where
  "ex_params =
     \<lparr>target = ''ws://127.0.0.1:8765'', connectTimeoutMs = 8000, readTimeoutMs = 1000,
      resumeSessionId = None, systemPrompt = ''Be brief.'', userPrompt = ''Hello'',
      media = [], generation = ex_generation\<rparr>"

definition ex_welcome :: message where
  "ex_welcome = [(''type'', JStr ''welcome''), (''session_id'', JStr ''s-1'')]"

definition ex_ping :: message where
  "ex_ping = [(''type'', JStr ''ping'')]"

definition ex_bad_start :: message where
  "ex_bad_start = [(''type'', JStr ''start''), (''tokens_in'', JNum 100), (''max_tokens'', JNum 10)]"

definition ex_zero_start :: message where
  "ex_zero_start = [(''type'', JStr ''start''), (''tokens_in'', JNum 0), (''max_tokens'', JNum 0)]"

definition ex_token :: "string \<Rightarrow> message" where
  "ex_token s = [(''type'', JStr ''token''), (''data'', JStr s)]"

definition ex_done :: message where
  "ex_done = [(''type'', JStr ''done''), (''total_tokens'', JNum 5)]"

text \<open>A server that answers the request with the bad budget and then stays silent.\<close>

definition ex_conn_bad :: conn where
  "ex_conn_bad =
     \<lparr>open_outcome = None, started_at = 0,
      events = [(10, Message ex_welcome), (20, Message ex_bad_start)], uuid = ''u-0''\<rparr>"

text \<open>A server that reports the bad budget and streams two tokens all the same.\<close>

definition ex_conn_good :: conn where
  "ex_conn_good =
     \<lparr>open_outcome = None, started_at = 0,
      events = [(10, Message ex_welcome), (20, Message ex_bad_start),
                (30, Message (ex_token '' hi '')), (31, Message (ex_token ''you '')),
                (40, Message ex_done)],
      uuid = ''u-1''\<rparr>"

text \<open>A server whose \<^verbatim>\<open>start\<close> frame reports no input tokens and no budget.\<close>

definition ex_conn_zero :: conn where
  "ex_conn_zero =
     \<lparr>open_outcome = None, started_at = 0,
      events = [(10, Message ex_welcome), (20, Message ex_zero_start),
                (30, Message (ex_token ''ok'')), (40, Message ex_done)],
      uuid = ''u-2''\<rparr>"

text \<open>A server that sends a message every 600 ms and its welcome second.\<close>

definition ex_conn_slow :: conn where
  "ex_conn_slow =
     \<lparr>open_outcome = None, started_at = 0,
      events = [(600, Message ex_ping), (1200, Message ex_welcome),
                (1800, Message (ex_token ''late'')), (2400, Message ex_done)],
      uuid = ''u-3''\<rparr>"

text \<open>A server that spaces its frames by 590 or 600 ms, the welcome first.\<close>

definition ex_conn_steady :: conn where
  "ex_conn_steady =
     \<lparr>open_outcome = None, started_at = 0,
      events = [(10, Message ex_welcome), (600, Message (ex_token ''a'')),
                (1200, Message (ex_token ''b'')), (1800, Message ex_done)],
      uuid = ''u-4''\<rparr>"

text \<open>A server that sends a token before its welcome; and one that sends a token and
  then the bad budget.\<close>

definition ex_conn_early :: conn where
  "ex_conn_early =
     \<lparr>open_outcome = None, started_at = 0,
      events = [(5, Message (ex_token ''early '')), (10, Message ex_welcome),
                (30, Message (ex_token ''ok'')), (40, Message ex_done)],
      uuid = ''u-5''\<rparr>"

definition ex_conn_lost :: conn where
  "ex_conn_lost =
     \<lparr>open_outcome = None, started_at = 0,
      events = [(10, Message ex_welcome), (15, Message (ex_token ''lost '')),
                (20, Message ex_bad_start)],
      uuid = ''u-6''\<rparr>"

text \<open>A server that reports the bad budget before its welcome.\<close>

definition ex_conn_early_bad :: conn where
  "ex_conn_early_bad =
     \<lparr>open_outcome = None, started_at = 0,
      events = [(5, Message ex_bad_start), (10, Message ex_welcome),
                (30, Message (ex_token ''ok'')), (40, Message ex_done)],
      uuid = ''u-13''\<rparr>"

text \<open>A server whose \<^verbatim>\<open>start\<close> frame comes before its welcome and whose \<^verbatim>\<open>done\<close>
  frame has no count; and one that reports 2^53 input tokens and one token in all.\<close>

definition ex_conn_early_start :: conn where
  "ex_conn_early_start =
     \<lparr>open_outcome = None, started_at = 0,
      events = [(5, Message [(''type'', JStr ''start''), (''tokens_in'', JNum 7)]),
                (10, Message ex_welcome), (30, Message (ex_token ''ok'')),
                (40, Message [(''type'', JStr ''done'')])],
      uuid = ''u-10''\<rparr>"

definition ex_conn_big :: conn where
  "ex_conn_big =
     \<lparr>open_outcome = None, started_at = 0,
      events = [(10, Message ex_welcome),
                (20, Message [(''type'', JStr ''start''), (''tokens_in'', JNum 9007199254740992)]),
                (30, Message (ex_token ''ok'')),
                (40, Message [(''type'', JStr ''done''), (''total_tokens'', JNum 1)])],
      uuid = ''u-11''\<rparr>"

text \<open>A server whose socket reports an error right after the welcome, with a token and
  \<^verbatim>\<open>done\<close> arriving in the same instant after it.\<close>

definition ex_conn_boom :: conn where
  "ex_conn_boom =
     \<lparr>open_outcome = None, started_at = 0,
      events = [(10, Message ex_welcome), (10, Failure ''boom''),
                (10, Message (ex_token ''x'')), (10, Message ex_done)],
      uuid = ''u-12''\<rparr>"

text \<open>The network on which every socket is the same.\<close>

definition ex_only :: "conn \<Rightarrow> nat \<Rightarrow> conn" where
  "ex_only c i = c"

definition ex_net_lost :: "nat \<Rightarrow> conn" where
  "ex_net_lost i = (if i = 0 then ex_conn_lost else ex_conn_good)"

definition ex_net :: "nat \<Rightarrow> conn" where
  "ex_net i = (if i = 0 then ex_conn_bad else ex_conn_good)"

definition ex_result :: attempt_result where
  "ex_result =
     \<lparr>text' = ''hi you'', sessionId = Some ''s-1'',
      usage = Some \<lparr>input' = Some 100, output' = Some 5, total' = Some (Finite 105)\<rparr>\<rparr>"

definition ex_first_pass :: "action list" where
  "ex_first_pass =
     [Open ''ws://127.0.0.1:8765'', SendHello None,
      SendInference ''Be brief.'' ''Hello'' [] ex_generation, Close]"

definition ex_second_pass :: "action list" where
  "ex_second_pass =
     [Open ''ws://127.0.0.1:8765'', SendHello None,
      SendInference ''Be brief.'' ''Hello'' [] (ex_generation\<lparr>max_new_tokens := Some (Finite 232)\<rparr>), Close]"

subsection \<open>Candidate servers\<close>

record llmws_target =
  url :: string
  capabilities :: "string list"

definition DEFAULT_LLMWS_ENDPOINT :: string where
  "DEFAULT_LLMWS_ENDPOINT = ''ws://127.0.0.1:8765''"

text \<open>\<^verbatim>\<open>toLowerCase\<close> and \<^verbatim>\<open>toUpperCase\<close> on the code units below 256: the letters A-Z
  and the accented capitals 0xC0-0xDE (0xD7 is the multiplication sign) have their
  lower case 32 above; the lower-case letters whose capital lies beyond 255 keep
  their value.\<close>

definition lower_char :: "char \<Rightarrow> char" where
  "lower_char c =
     (let n = (of_char c :: nat)
      in if (65 \<le> n \<and> n \<le> 90) \<or> (192 \<le> n \<and> n \<le> 222 \<and> n \<noteq> 215)
         then char_of (n + 32) else c)"

definition upper_char :: "char \<Rightarrow> char" where
  "upper_char c =
     (let n = (of_char c :: nat)
      in if (97 \<le> n \<and> n \<le> 122) \<or> (224 \<le> n \<and> n \<le> 254 \<and> n \<noteq> 247)
         then char_of (n - 32) else c)"

definition toLowerCase :: "string \<Rightarrow> string" where
  "toLowerCase s = map lower_char s"

definition toUpperCase :: "string \<Rightarrow> string" where
  "toUpperCase s = map upper_char s"

definition ascii_letter :: "char \<Rightarrow> bool" where
  "ascii_letter c \<longleftrightarrow>
     (let n = (of_char c :: nat) in (65 \<le> n \<and> n \<le> 90) \<or> (97 \<le> n \<and> n \<le> 122))"

text \<open>The match of \<^verbatim>\<open>/^([a-z]+):\/(.+)$/i\<close>: the scheme and the rest. The dot matches
  no line terminator and \<^verbatim>\<open>$\<close> only the end of the string.\<close>

definition schemeSingleSlash :: "string \<Rightarrow> (string \<times> string) option" where
  "schemeSingleSlash s =
     (let scheme = takeWhile ascii_letter s; after = dropWhile ascii_letter s
      in if scheme \<noteq> [] \<and> take 2 after = '':/'' \<and> drop 2 after \<noteq> []
            \<and> list_all (\<lambda>c. c \<noteq> CHR 0x0A \<and> c \<noteq> CHR 0x0D) (drop 2 after)
         then Some (scheme, drop 2 after) else None)"

definition toWsUrl :: "string \<Rightarrow> string" where
  "toWsUrl v =
     (let trimmed = trim v in
      if trimmed = [] then []
      else
        (let slashNormalized = map (\<lambda>c. if c = CHR 0x5C then CHR ''/'' else c) trimmed in
         if js_includes slashNormalized ''://'' then slashNormalized
         else (case schemeSingleSlash slashNormalized of
                 Some (scheme, rest) \<Rightarrow>
                   toLowerCase scheme @ ''://'' @ dropWhile (\<lambda>c. c = CHR ''/'') rest
               | None \<Rightarrow> ''ws://'' @ dropWhile (\<lambda>c. c = CHR ''/'') slashNormalized)))"

text \<open>\<^verbatim>\<open>replace(/\s+/g, "-")\<close>.\<close>

function dash_spaces :: "string \<Rightarrow> string" where
  "dash_spaces [] = []"
| "dash_spaces (c # cs) =
     (if js_space c then CHR ''-'' # dash_spaces (dropWhile js_space cs)
      else c # dash_spaces cs)"
  by pat_completeness auto
termination
  by (relation "measure length") (auto simp: less_Suc_eq_le length_dropWhile_le)

definition normalizeCapabilityTag :: "string \<Rightarrow> string" where
  "normalizeCapabilityTag v =
     (let trimmed = toLowerCase (trim v) in
      if trimmed = [] then [] else dash_spaces trimmed)"

text \<open>The loops of \<^verbatim>\<open>dedupeCapabilityTags\<close> and \<^verbatim>\<open>dedupeTargets\<close>; the set \<^verbatim>\<open>seen\<close>
  holds what \<^verbatim>\<open>out\<close> holds (the tags, the URLs).\<close>

fun dedupe_tags_loop :: "string list \<Rightarrow> string list \<Rightarrow> string list" where
  "dedupe_tags_loop out [] = out"
| "dedupe_tags_loop out (raw # rest) =
     (let normalized = normalizeCapabilityTag raw in
      if normalized = [] \<or> normalized \<in> set out then dedupe_tags_loop out rest
      else dedupe_tags_loop (out @ [normalized]) rest)"

definition dedupeCapabilityTags :: "string list \<Rightarrow> string list" where
  "dedupeCapabilityTags vs = dedupe_tags_loop [] vs"

fun dedupe_targets_loop :: "llmws_target list \<Rightarrow> llmws_target list \<Rightarrow> llmws_target list" where
  "dedupe_targets_loop out [] = out"
| "dedupe_targets_loop out (raw # rest) =
     (let v = toWsUrl (url raw) in
      if v = [] \<or> v \<in> set (map url out) then dedupe_targets_loop out rest
      else dedupe_targets_loop
             (out @ [\<lparr>url = v, capabilities = dedupeCapabilityTags (capabilities raw)\<rparr>]) rest)"

definition dedupeTargets :: "llmws_target list \<Rightarrow> llmws_target list" where
  "dedupeTargets vs = dedupe_targets_loop [] vs"

text \<open>\<^verbatim>\<open>new Set(values)\<close>, as the list of its elements in insertion order.\<close>

definition new_Set :: "'a list \<Rightarrow> 'a list" where
  "new_Set vs = fold (\<lambda>v acc. if v \<in> set acc then acc else acc @ [v]) vs []"

text \<open>\<^verbatim>\<open>Array.prototype.toSorted(compare)\<close>: a stable sort. For a comparator that is
  consistent, as the one below is, its result is the one of inserting every element
  before the first element of the sorted rest that it does not compare greater than.\<close>

fun insert_sorted :: "('a \<Rightarrow> 'a \<Rightarrow> int) \<Rightarrow> 'a \<Rightarrow> 'a list \<Rightarrow> 'a list" where
  "insert_sorted cmp x [] = [x]"
| "insert_sorted cmp x (y # ys) =
     (if cmp x y \<le> 0 then x # y # ys else y # insert_sorted cmp x ys)"

definition toSorted :: "('a \<Rightarrow> 'a \<Rightarrow> int) \<Rightarrow> 'a list \<Rightarrow> 'a list" where
  "toSorted cmp xs = foldr (insert_sorted cmp) xs []"

text \<open>The number of preferred tags that a target declares (\<^verbatim>\<open>leftMatches\<close>,
  \<^verbatim>\<open>rightMatches\<close>), and the comparator of \<^verbatim>\<open>sortTargetsByCapabilities\<close>.\<close>

definition tag_matches :: "string list \<Rightarrow> llmws_target \<Rightarrow> nat" where
  "tag_matches preferredSet t =
     length (filter (\<lambda>tag. tag \<in> set (new_Set (map normalizeCapabilityTag (capabilities t))))
               preferredSet)"

definition compare_targets :: "string list \<Rightarrow> llmws_target \<Rightarrow> llmws_target \<Rightarrow> int" where
  "compare_targets preferredSet left right =
     (let leftMatches = tag_matches preferredSet left;
          rightMatches = tag_matches preferredSet right;
          leftAll = (leftMatches = length preferredSet);
          rightAll = (rightMatches = length preferredSet)
      in if leftAll \<noteq> rightAll then (if leftAll then - 1 else 1)
         else if leftMatches \<noteq> rightMatches then int rightMatches - int leftMatches
         else 0)"

definition sortTargetsByCapabilities :: "llmws_target list \<Rightarrow> string list \<Rightarrow> llmws_target list" where
  "sortTargetsByCapabilities targets preferred =
     (if length preferred = 0 \<or> length targets \<le> 1 then targets
      else toSorted (compare_targets (new_Set (map normalizeCapabilityTag preferred))) targets)"

text \<open>The targets of \<^verbatim>\<open>resolveLlmwsRuntimeSettings\<close> (lines 341-351). \<open>configured\<close> holds
  the entries read from the model's parameters, the deployment defaults and the
  environment, in that order; \<open>preferredRaw\<close> the capability tags that the model's
  parameters prefer.\<close>

definition resolve_targets :: "llmws_target list \<Rightarrow> string list \<Rightarrow> llmws_target list" where
  "resolve_targets configured preferredRaw =
     sortTargetsByCapabilities
       (dedupeTargets (configured @ [\<lparr>url = DEFAULT_LLMWS_ENDPOINT, capabilities = []\<rparr>]))
       (dedupeCapabilityTags preferredRaw)"

subsection \<open>The outgoing prompt\<close>

text \<open>Lines 1239-1249. \<open>historyContext\<close> and \<open>memoryInjection\<close> are what
  \<^verbatim>\<open>readHistoryContext\<close> and \<^verbatim>\<open>resolveZigmemMemoryInjection\<close> returned; an empty string
  is as good as none.\<close>

definition promptParts :: "string option \<Rightarrow> string option \<Rightarrow> string list" where
  "promptParts historyContext memoryInjection =
     (case historyContext of None \<Rightarrow> [] | Some h \<Rightarrow> if h = [] then [] else [h])
     @ (case memoryInjection of None \<Rightarrow> [] | Some m \<Rightarrow> if m = [] then [] else [m])"

definition promptBody :: "string option \<Rightarrow> string option \<Rightarrow> string \<Rightarrow> string" where
  "promptBody historyContext memoryInjection prompt =
     (let parts = promptParts historyContext memoryInjection in
      if length parts > 0
      then join [CHR 0x0A, CHR 0x0A] (parts @ [''Current user request:'' @ [CHR 0x0A] @ prompt])
      else prompt)"

subsection \<open>Failover over the targets\<close>

record runtime_settings =
  targets :: "llmws_target list"
  connectTimeoutMs' :: int
  readTimeoutMs' :: int
  generation' :: generation_config

text \<open>The loop over the targets (lines 1253-1272), from the errors collected so far:
  the attempt result if any, the errors, the targets on which \<^verbatim>\<open>runLlmwsAttempt\<close> was
  called, and what the attempts did. \<open>net u\<close> scripts the sockets of target \<open>u\<close>;
  \<open>base\<close> holds what every attempt is given.\<close>

fun try_targets ::
  "(rat \<Rightarrow> string) \<Rightarrow> (string \<Rightarrow> nat \<Rightarrow> conn) \<Rightarrow> attempt_params \<Rightarrow> llmws_target list \<Rightarrow> string list
     \<Rightarrow> attempt_result option \<times> string list \<times> string list \<times> action list" where
  "try_targets num net base [] endpointErrors = (None, endpointErrors, [], [])"
| "try_targets num net base (t # ts) endpointErrors =
     (let targetUrl = url t in
      case runLlmwsAttempt (base\<lparr>target := targetUrl\<rparr>) (net targetUrl) of
        (Inr r, tr) \<Rightarrow> (Some r, endpointErrors, [targetUrl], tr)
      | (Inl e, tr) \<Rightarrow>
          (let (res, errs, called, tr') =
                 try_targets num net base ts
                   (endpointErrors @ [targetUrl @ '': '' @ error_message num e])
           in (res, errs, targetUrl # called, tr @ tr')))"

text \<open>The message of the error thrown when no attempt returned (lines 1274-1280).\<close>

definition endpoints_failed :: "string list \<Rightarrow> string" where
  "endpoints_failed endpointErrors =
     (if length endpointErrors > 0
      then ''LLMWS endpoints failed: '' @ join '' | '' endpointErrors
      else ''LLMWS endpoints failed'')"

text \<open>Modelled from the spec: the reasons of a classified failure (section 7:
  \<^verbatim>\<open>rate_limit\<close>, \<^verbatim>\<open>timeout\<close>, \<^verbatim>\<open>auth\<close>, \<^verbatim>\<open>billing\<close>, \<^verbatim>\<open>unknown\<close>); the type is declared
  in \<^verbatim>\<open>failover-error.ts\<close>.\<close>

datatype failover_reason = RateLimit | Timeout | Auth | Billing | Unknown

record failover_error =
  message :: string
  reason :: failover_reason
  provider :: string
  model :: string
  status :: "int option"
  cause :: "string option"

text \<open>What a \<^verbatim>\<open>catch\<close> receives: an \<^verbatim>\<open>Error\<close> with its message and its own
  properties, or a \<^verbatim>\<open>FailoverError\<close>.\<close>

datatype thrown = ErrorObj string "(string \<times> json) list" | FailoverObj failover_error

definition CONNECTIVITY_ERROR_CODES :: "string list" where
  "CONNECTIVITY_ERROR_CODES =
     [''ECONNREFUSED'', ''ECONNRESET'', ''ETIMEDOUT'', ''EHOSTUNREACH'', ''ENETUNREACH'',
      ''ENOTFOUND'', ''EPIPE'']"

definition hasConnectivityHint :: "(string \<times> json) list \<Rightarrow> string \<Rightarrow> bool" where
  "hasConnectivityHint error msg =
     ((case readString error ''code'' of
         Some code \<Rightarrow> toUpperCase code \<in> set CONNECTIVITY_ERROR_CODES
       | None \<Rightarrow> False)
      \<or> (let lower = toLowerCase msg in
           js_includes lower ''connect timeout'' \<or>
           js_includes lower ''read timeout'' \<or>
           js_includes lower ''socket closed'' \<or>
           js_includes lower ''connection closed'' \<or>
           js_includes lower ''econnrefused'' \<or>
           js_includes lower ''econnreset'' \<or>
           js_includes lower ''timed out''))"

text \<open>\<^verbatim>\<open>toFailoverError\<close>; \<open>classify\<close> is \<^verbatim>\<open>classifyFailoverReason\<close> and \<open>status_of\<close> is
  \<^verbatim>\<open>resolveFailoverStatus\<close>, both of other modules.\<close>

definition toFailoverError ::
  "(string \<Rightarrow> failover_reason option) \<Rightarrow> (failover_reason \<Rightarrow> int option) \<Rightarrow> thrown
     \<Rightarrow> string \<Rightarrow> string \<Rightarrow> failover_error" where
  "toFailoverError classify status_of error prov mdl =
     (case error of
        FailoverObj fe \<Rightarrow> fe
      | ErrorObj described props \<Rightarrow>
          (let msg = (if trim described = [] then ''LLMWS request failed'' else trim described);
               rsn = (case classify msg of
                        Some r \<Rightarrow> r
                      | None \<Rightarrow> if hasConnectivityHint props msg then Timeout else Unknown)
           in \<lparr>message = msg, reason = rsn, provider = prov, model = mdl,
                status = status_of rsn, cause = Some described\<rparr>))"

subsection \<open>The transcript\<close>

text \<open>\<^verbatim>\<open>split(/\r?\n/g)\<close>: the pieces between the line breaks, a break being LF or CR
  LF.\<close>

fun split_lines_from :: "string \<Rightarrow> string \<Rightarrow> string list" where
  "split_lines_from acc [] = [rev acc]"
| "split_lines_from acc [c] =
     (if c = CHR 0x0A then [rev acc, []] else [rev (c # acc)])"
| "split_lines_from acc (c # d # cs) =
     (if c = CHR 0x0A then rev acc # split_lines_from [] (d # cs)
      else if c = CHR 0x0D \<and> d = CHR 0x0A then rev acc # split_lines_from [] cs
      else split_lines_from (c # acc) (d # cs))"

definition split_lines :: "string \<Rightarrow> string list" where
  "split_lines s = split_lines_from [] s"

text \<open>The lines of a transcript as \<^verbatim>\<open>appendTranscriptMessages\<close> reads them (lines
  874-877): trimmed, the empty ones dropped.\<close>

definition nonblank :: "string list \<Rightarrow> string list" where
  "nonblank ls = filter (\<lambda>line. line \<noteq> []) (map trim ls)"

definition transcript_lines :: "string \<Rightarrow> string list" where
  "transcript_lines existing = nonblank (split_lines existing)"

text \<open>The scan of the lines (lines 878-900), from the values of \<^verbatim>\<open>hasHeader\<close> and
  \<^verbatim>\<open>lastMessageId\<close> so far. \<open>parse\<close> is \<^verbatim>\<open>JSON.parse\<close>, \<open>None\<close> where it throws.\<close>

fun scan_lines ::
  "(string \<Rightarrow> json option) \<Rightarrow> bool \<times> string option \<Rightarrow> string list \<Rightarrow> bool \<times> string option" where
  "scan_lines parse st [] = st"
| "scan_lines parse (hasHeader, lastMessageId) (line # rest) =
     (case parse line of
        Some (JObj parsed) \<Rightarrow>
          scan_lines parse
            (hasHeader \<or> map_of parsed ''type'' = Some (JStr ''session''),
             (if map_of parsed ''type'' = Some (JStr ''message'')
              then (case readString parsed ''id'' of Some i \<Rightarrow> Some i | None \<Rightarrow> lastMessageId)
              else lastMessageId))
            rest
      | _ \<Rightarrow> scan_lines parse (hasHeader, lastMessageId) rest)"

text \<open>What the clock, the random generator and \<^verbatim>\<open>path.resolve\<close> give to one call of
  \<^verbatim>\<open>appendTranscriptMessages\<close>.\<close>

record append_env =
  now_user :: string
  now_assistant :: string
  userId :: string
  assistantId :: string
  cwd :: string

definition session_entry :: "append_env \<Rightarrow> string \<Rightarrow> json" where
  "session_entry env sid =
     JObj [(''type'', JStr ''session''), (''version'', JNum 7), (''id'', JStr sid),
           (''timestamp'', JStr (now_user env)), (''cwd'', JStr (cwd env))]"

text \<open>The entries that one call adds (lines 902-940), given the existing content: the
  header when none was found, the user message and the assistant message.\<close>

definition additions ::
  "(string \<Rightarrow> json option) \<Rightarrow> append_env \<Rightarrow> string \<Rightarrow> string \<Rightarrow> string \<Rightarrow> string \<Rightarrow> json list" where
  "additions parse env sid userText assistantText existing =
     (let (hasHeader, lastMessageId) = scan_lines parse (False, None) (transcript_lines existing)
      in (if \<not> hasHeader then [session_entry env sid] else [])
         @ [JObj [(''type'', JStr ''message''),
                  (''id'', JStr (userId env)),
                  (''parentId'', (case lastMessageId of None \<Rightarrow> JNull | Some ident \<Rightarrow> JStr ident)),
                  (''timestamp'', JStr (now_user env)),
                  (''message'',
                   JObj [(''role'', JStr ''user''),
                         (''content'', JArr [JObj [(''type'', JStr ''text''), (''text'', JStr userText)]])])],
            JObj [(''type'', JStr ''message''),
                  (''id'', JStr (assistantId env)),
                  (''parentId'', JStr (userId env)),
                  (''timestamp'', JStr (now_assistant env)),
                  (''message'',
                   JObj [(''role'', JStr ''assistant''),
                         (''content'',
                          JArr [JObj [(''type'', JStr ''text''), (''text'', JStr assistantText)]])])]])"

text \<open>The text handed to \<^verbatim>\<open>fs.appendFile\<close> (lines 942-943); \<open>stringify\<close> is
  \<^verbatim>\<open>JSON.stringify\<close>.\<close>

definition appended_text ::
  "(string \<Rightarrow> json option) \<Rightarrow> (json \<Rightarrow> string) \<Rightarrow> append_env \<Rightarrow> string \<Rightarrow> string \<Rightarrow> string
     \<Rightarrow> string \<Rightarrow> string" where
  "appended_text parse stringify env sid userText assistantText existing =
     (let prefix = (if length (transcript_lines existing) > 0
                       \<and> \<not> (existing \<noteq> [] \<and> last existing = CHR 0x0A)
                    then [CHR 0x0A] else [])
      in prefix
         @ join [CHR 0x0A] (map stringify (additions parse env sid userText assistantText existing))
         @ [CHR 0x0A])"

text \<open>The file system and the lock as one call meets them: whether the lock is
  acquired within its 10 s or \<^verbatim>\<open>acquireSessionWriteLock\<close> rejects, what reading the file
  gives, and whether the append goes through.\<close>

datatype read_outcome = FileContent string | ReadError string "(string \<times> json) list"

record fs_env =
  lock_error :: "string option"
  read_result :: read_outcome
  append_error :: "string option"

datatype fs_action = AcquireLock | ReadFile | AppendFile string | ReleaseLock

text \<open>\<^verbatim>\<open>appendTranscriptMessages\<close>: the error it throws, if any, and what it did to the
  file and the lock.\<close>

definition appendTranscriptMessages ::
  "(string \<Rightarrow> json option) \<Rightarrow> (json \<Rightarrow> string) \<Rightarrow> append_env \<Rightarrow> fs_env \<Rightarrow> string \<Rightarrow> string
     \<Rightarrow> string \<Rightarrow> string option \<times> fs_action list" where
  "appendTranscriptMessages parse stringify env fs sid userText assistantText =
     (case lock_error fs of
        Some e \<Rightarrow> (Some e, [AcquireLock])
      | None \<Rightarrow>
          (let existing = (case read_result fs of
                             FileContent s \<Rightarrow> Inr s
                           | ReadError e props \<Rightarrow>
                               if readString props ''code'' \<noteq> Some ''ENOENT'' then Inl e else Inr [])
           in case existing of
                Inl e \<Rightarrow> (Some e, [AcquireLock, ReadFile, ReleaseLock])
              | Inr s \<Rightarrow>
                  (let txt = appended_text parse stringify env sid userText assistantText s
                   in (append_error fs, [AcquireLock, ReadFile, AppendFile txt, ReleaseLock]))))"

subsection \<open>The whole call\<close>

text \<open>What \<^verbatim>\<open>runLlmwsAgent\<close> is called with and what the steps before line 1239 have
  computed (the model id, the system prompt, the history and memory sections, the media
  payload, the workspace directory and the runtime settings).\<close>

record agent_call =
  c_sessionId :: string
  remoteSessionId :: "string option"
  prompt :: string
  c_provider :: string
  modelId :: string
  c_systemPrompt :: string
  historyContext :: "string option"
  memoryInjection :: "string option"
  c_media :: "json list"
  settings :: runtime_settings

text \<open>What the outside gives to one call: the sockets of every target, the texts of
  numbers, the classifier and the status table of the failover module,
  \<^verbatim>\<open>stripReasoningTagsFromText\<close>, \<^verbatim>\<open>JSON.parse\<close> and \<^verbatim>\<open>JSON.stringify\<close>, the transcript's
  file system and lock, and the clock at the start and at the end.\<close>

record agent_env =
  e_net :: "string \<Rightarrow> nat \<Rightarrow> conn"
  e_num :: "rat \<Rightarrow> string"
  e_classify :: "string \<Rightarrow> failover_reason option"
  e_status_of :: "failover_reason \<Rightarrow> int option"
  e_strip :: "string \<Rightarrow> string"
  e_parse :: "string \<Rightarrow> json option"
  e_stringify :: "json \<Rightarrow> string"
  e_transcript :: append_env
  e_fs :: fs_env
  e_started :: int
  e_finished :: int

record agent_meta =
  m_sessionId :: string
  m_provider :: string
  m_model :: string
  m_usage :: "usage_info option"

record run_result =
  payloads :: "string list option"
  durationMs :: int
  agentMeta :: agent_meta

text \<open>What the call did: the targets attempted, the socket traffic, the transcript
  operations and the warnings logged.\<close>

record effects =
  called :: "string list"
  traffic :: "action list"
  fs_actions :: "fs_action list"
  warnings :: "string list"

text \<open>What every attempt of the call is given (lines 1258-1267), but for the target.\<close>

definition attempt_base :: "agent_call \<Rightarrow> attempt_params" where
  "attempt_base call =
     \<lparr>target = [],
      connectTimeoutMs = connectTimeoutMs' (settings call),
      readTimeoutMs = readTimeoutMs' (settings call),
      resumeSessionId = remoteSessionId call,
      systemPrompt = c_systemPrompt call,
      userPrompt = promptBody (historyContext call) (memoryInjection call) (prompt call),
      media = c_media call,
      generation = generation' (settings call)\<rparr>"

text \<open>\<^verbatim>\<open>runLlmwsAgent\<close> from line 1239 on.\<close>

definition runLlmwsAgent :: "agent_call \<Rightarrow> agent_env \<Rightarrow> (failover_error + run_result) \<times> effects" where
  "runLlmwsAgent call env =
     (let (attemptResult, endpointErrors, tried, tr) =
             try_targets (e_num env) (e_net env) (attempt_base call) (targets (settings call)) []
      in case attemptResult of
           None \<Rightarrow>
             (Inl (toFailoverError (e_classify env) (e_status_of env)
                     (ErrorObj (endpoints_failed endpointErrors) []) (c_provider call) (modelId call)),
              \<lparr>called = tried, traffic = tr, fs_actions = [], warnings = []\<rparr>)
         | Some r \<Rightarrow>
             (let finalText = e_strip env (text' r);
                  (failure, ops) =
                     (if finalText \<noteq> []
                      then appendTranscriptMessages (e_parse env) (e_stringify env) (e_transcript env)
                             (e_fs env) (c_sessionId call) (prompt call) finalText
                      else (None, []))
              in (Inr \<lparr>payloads = (if finalText \<noteq> [] then Some [finalText] else None),
                       durationMs = e_finished env - e_started env,
                       agentMeta =
                         \<lparr>m_sessionId = (case sessionId r of Some s \<Rightarrow> s | None \<Rightarrow> c_sessionId call),
                          m_provider = c_provider call,
                          m_model = modelId call,
                          m_usage = usage r\<rparr>\<rparr>,
                  \<lparr>called = tried, traffic = tr, fs_actions = ops,
                   warnings = (case failure of
                                 None \<Rightarrow> []
                               | Some e \<Rightarrow> [''failed to persist llmws transcript: '' @ e])\<rparr>)))"

subsection \<open>Reading a call\<close>

text \<open>The attempt on one target as the failover loop makes it; whether it fails; the
  line it then adds to the errors; and the targets that the loop gets to: those that
  fail one after the other from the head of the list, and the first one that does
  not.\<close>

definition attempt_on ::
  "(string \<Rightarrow> nat \<Rightarrow> conn) \<Rightarrow> attempt_params \<Rightarrow> llmws_target
     \<Rightarrow> (llmws_error + attempt_result) \<times> action list" where
  "attempt_on nt base t = runLlmwsAttempt (base\<lparr>target := url t\<rparr>) (nt (url t))"

definition fails_on :: "(string \<Rightarrow> nat \<Rightarrow> conn) \<Rightarrow> attempt_params \<Rightarrow> llmws_target \<Rightarrow> bool" where
  "fails_on nt base t = (case fst (attempt_on nt base t) of Inl e \<Rightarrow> True | Inr r \<Rightarrow> False)"

definition failure_detail ::
  "(rat \<Rightarrow> string) \<Rightarrow> (string \<Rightarrow> nat \<Rightarrow> conn) \<Rightarrow> attempt_params \<Rightarrow> llmws_target \<Rightarrow> string" where
  "failure_detail nm nt base t =
     (case fst (attempt_on nt base t) of
        Inl e \<Rightarrow> url t @ '': '' @ error_message nm e
      | Inr r \<Rightarrow> [])"

definition attempted ::
  "(string \<Rightarrow> nat \<Rightarrow> conn) \<Rightarrow> attempt_params \<Rightarrow> llmws_target list \<Rightarrow> llmws_target list" where
  "attempted nt base ts =
     takeWhile (fails_on nt base) ts @ take 1 (dropWhile (fails_on nt base) ts)"

text \<open>The user prompts sent, in a trace.\<close>

fun sent_prompts :: "action list \<Rightarrow> string list" where
  "sent_prompts [] = []"
| "sent_prompts (SendInference s u m g # tr) = u # sent_prompts tr"
| "sent_prompts (a # tr) = sent_prompts tr"

text \<open>The records that the lines of a transcript parse to; whether one of them is a
  \<^verbatim>\<open>session\<close> header; and the identifier of the last \<^verbatim>\<open>message\<close> entry that has one.\<close>

definition parsed_records :: "(string \<Rightarrow> json option) \<Rightarrow> string \<Rightarrow> (string \<times> json) list list" where
  "parsed_records prs existing =
     List.map_filter (\<lambda>line. case prs line of Some (JObj f) \<Rightarrow> Some f | _ \<Rightarrow> None)
       (transcript_lines existing)"

definition has_session_header :: "(string \<Rightarrow> json option) \<Rightarrow> string \<Rightarrow> bool" where
  "has_session_header prs existing =
     list_ex (\<lambda>f. map_of f ''type'' = Some (JStr ''session'')) (parsed_records prs existing)"

definition last_message_id :: "(string \<Rightarrow> json option) \<Rightarrow> string \<Rightarrow> string option" where
  "last_message_id prs existing =
     (case List.map_filter
             (\<lambda>f. if map_of f ''type'' = Some (JStr ''message'') then readString f ''id'' else None)
             (parsed_records prs existing) of
        [] \<Rightarrow> None
      | ids \<Rightarrow> Some (last ids))"

subsection \<open>A sample call, its servers and its transcript\<close>

text \<open>A number as a template literal shows it (the natural numbers only), and a plain
  \<^verbatim>\<open>JSON.stringify\<close> for the values that occur in the sample.\<close>

function ex_digits :: "nat \<Rightarrow> string" where
  "ex_digits n =
     (if n < 10 then [char_of (48 + n)] else ex_digits (n div 10) @ [char_of (48 + n mod 10)])"
  by pat_completeness auto
termination
  by (relation "measure id") auto

definition ex_num :: "rat \<Rightarrow> string" where
  "ex_num r = ex_digits (nat \<lfloor>r\<rfloor>)"

definition ex_quote :: "string \<Rightarrow> string" where
  "ex_quote s =
     [CHR 0x22]
     @ concat (map (\<lambda>c. if c = CHR 0x22 then [CHR 0x5C, CHR 0x22]
                          else if c = CHR 0x5C then [CHR 0x5C, CHR 0x5C]
                          else if c = CHR 0x0A then [CHR 0x5C, CHR ''n'']
                          else if c = CHR 0x0D then [CHR 0x5C, CHR ''r'']
                          else [c]) s)
     @ [CHR 0x22]"

fun ex_stringify :: "json \<Rightarrow> string" where
  "ex_stringify JNull = ''null''"
| "ex_stringify (JBool b) = (if b then ''true'' else ''false'')"
| "ex_stringify (JNum r) = ex_num r"
| "ex_stringify (JStr s) = ex_quote s"
| "ex_stringify (JArr xs) = ''['' @ join '','' (map ex_stringify xs) @ '']''"
| "ex_stringify (JObj fs) =
     ''{'' @ join '','' (map (\<lambda>(k, v). ex_quote k @ '':'' @ ex_stringify v) fs) @ ''}''"

text \<open>A port where nothing listens, and a server that accepts and says nothing.\<close>

definition ex_conn_refused :: conn where
  "ex_conn_refused =
     \<lparr>open_outcome = Some (SocketError ''connect ECONNREFUSED 127.0.0.1:9''), started_at = 0,
      events = [], uuid = ''u-9''\<rparr>"

definition ex_conn_silent :: conn where
  "ex_conn_silent = \<lparr>open_outcome = None, started_at = 0, events = [], uuid = ''u-8''\<rparr>"

text \<open>A server that answers every request with an error frame.\<close>

definition ex_conn_wrong :: conn where
  "ex_conn_wrong =
     \<lparr>open_outcome = None, started_at = 0,
      events = [(10, Message ex_welcome),
                (20, Message [(''type'', JStr ''error''), (''message'', JStr ''wrong-target'')])],
      uuid = ''u-7''\<rparr>"

definition ex_settings :: runtime_settings where
  "ex_settings =
     \<lparr>targets = [\<lparr>url = ''ws://127.0.0.1:9'', capabilities = []\<rparr>,
                 \<lparr>url = ''ws://127.0.0.1:8765'', capabilities = []\<rparr>],
      connectTimeoutMs' = 8000, readTimeoutMs' = 1000, generation' = ex_generation\<rparr>"

definition ex_history :: string where
  "ex_history = ''Conversation history:'' @ [CHR 0x0A] @ ''User: Hi''"

definition ex_call :: agent_call where
  "ex_call =
     \<lparr>c_sessionId = ''session-1'', remoteSessionId = None, prompt = ''Hello'',
      c_provider = ''llmws'', modelId = ''qwen-8b'', c_systemPrompt = ''Be brief.'',
      historyContext = Some ex_history, memoryInjection = None, c_media = [],
      settings = ex_settings\<rparr>"

definition ex_classify :: "string \<Rightarrow> failover_reason option" where
  "ex_classify s = (if js_includes (toLowerCase s) ''quota'' then Some RateLimit else None)"

definition ex_append_env :: append_env where
  "ex_append_env =
     \<lparr>now_user = ''2026-01-01T00:00:00.000Z'', now_assistant = ''2026-01-01T00:00:00.002Z'',
      userId = ''u-100'', assistantId = ''a-100'', cwd = ''/work''\<rparr>"

text \<open>A transcript of a header and two messages, and a parser that knows its lines.\<close>

definition ex_old_entries :: "json list" where
  "ex_old_entries =
     [JObj [(''type'', JStr ''session''), (''version'', JNum 7), (''id'', JStr ''session-1''),
            (''timestamp'', JStr ''2025-12-31T00:00:00.000Z''), (''cwd'', JStr ''/work'')],
      JObj [(''type'', JStr ''message''), (''id'', JStr ''m-1''), (''parentId'', JNull),
            (''timestamp'', JStr ''2025-12-31T00:00:01.000Z''),
            (''message'',
             JObj [(''role'', JStr ''user''),
                   (''content'', JArr [JObj [(''type'', JStr ''text''), (''text'', JStr ''Hi'')]])])],
      JObj [(''type'', JStr ''message''), (''id'', JStr ''m-2''), (''parentId'', JStr ''m-1''),
            (''timestamp'', JStr ''2025-12-31T00:00:02.000Z''),
            (''message'',
             JObj [(''role'', JStr ''assistant''),
                   (''content'', JArr [JObj [(''type'', JStr ''text''), (''text'', JStr ''Hello!'')]])])]]"

definition ex_existing :: string where
  "ex_existing = join [CHR 0x0A] (map ex_stringify ex_old_entries) @ [CHR 0x0A]"

text \<open>The two entries that the sample turn adds to it.\<close>

definition ex_user_entry :: json where
  "ex_user_entry =
     JObj [(''type'', JStr ''message''), (''id'', JStr ''u-100''), (''parentId'', JStr ''m-2''),
           (''timestamp'', JStr ''2026-01-01T00:00:00.000Z''),
           (''message'',
            JObj [(''role'', JStr ''user''),
                  (''content'', JArr [JObj [(''type'', JStr ''text''), (''text'', JStr ''Hello'')]])])]"

definition ex_assistant_entry :: json where
  "ex_assistant_entry =
     JObj [(''type'', JStr ''message''), (''id'', JStr ''a-100''), (''parentId'', JStr ''u-100''),
           (''timestamp'', JStr ''2026-01-01T00:00:00.002Z''),
           (''message'',
            JObj [(''role'', JStr ''assistant''),
                  (''content'', JArr [JObj [(''type'', JStr ''text''), (''text'', JStr ''hi you'')]])])]"

definition ex_parse :: "string \<Rightarrow> json option" where
  "ex_parse line = map_of (map (\<lambda>j. (ex_stringify j, j)) ex_old_entries) line"

definition ex_fs :: fs_env where
  "ex_fs = \<lparr>lock_error = None, read_result = FileContent ex_existing, append_error = None\<rparr>"

definition ex_env :: agent_env where
  "ex_env =
     \<lparr>e_net = (\<lambda>u. if u = ''ws://127.0.0.1:8765'' then ex_net else (\<lambda>i. ex_conn_refused)),
      e_num = ex_num, e_classify = ex_classify, e_status_of = (\<lambda>r. None),
      e_strip = (\<lambda>s. s), e_parse = ex_parse, e_stringify = ex_stringify,
      e_transcript = ex_append_env, e_fs = ex_fs, e_started = 0, e_finished = 1500\<rparr>"

text \<open>The same call when the second server stays silent, and when the lock on the
  transcript is not to be had.\<close>

definition ex_env_down :: agent_env where
  "ex_env_down =
     ex_env\<lparr>e_net := (\<lambda>u. if u = ''ws://127.0.0.1:8765'' then (\<lambda>i. ex_conn_silent)
                            else (\<lambda>i. ex_conn_refused))\<rparr>"

definition ex_env_locked :: agent_env where
  "ex_env_locked =
     ex_env\<lparr>e_fs := ex_fs\<lparr>lock_error := Some ''session file locked (timeout 10000ms)''\<rparr>\<rparr>"

text \<open>The same call when both servers answer every request with the bad budget and
  then stay silent.\<close>

definition ex_env_bad :: agent_env where
  "ex_env_bad = ex_env\<lparr>e_net := (\<lambda>u. ex_only ex_conn_bad)\<rparr>"

text \<open>Two servers with declared capabilities, the model preferring \<^verbatim>\<open>vision\<close>.\<close>

definition ex_fast :: llmws_target where
  "ex_fast = \<lparr>url = ''ws://127.0.0.1:9001'', capabilities = [''fast'']\<rparr>"

definition ex_vision :: llmws_target where
  "ex_vision = \<lparr>url = ''ws://127.0.0.1:9002'', capabilities = [''vision'']\<rparr>"

definition ex_call_caps :: agent_call where
  "ex_call_caps =
     ex_call\<lparr>settings := ex_settings\<lparr>targets := resolve_targets [ex_fast, ex_vision] [''vision'']\<rparr>\<rparr>"

definition ex_env_caps :: agent_env where
  "ex_env_caps =
     ex_env\<lparr>e_net := (\<lambda>u. if u = ''ws://127.0.0.1:9002'' then ex_net else (\<lambda>i. ex_conn_wrong))\<rparr>"

definition ex_run_result :: run_result where
  "ex_run_result =
     \<lparr>payloads = Some [''hi you''], durationMs = 1500,
      agentMeta = \<lparr>m_sessionId = ''s-1'', m_provider = ''llmws'', m_model = ''qwen-8b'',
                   m_usage = Some \<lparr>input' = Some 100, output' = Some 5, total' = Some (Finite 105)\<rparr>\<rparr>\<rparr>"

definition ex_prompt_body :: string where
  "ex_prompt_body =
     ex_history @ [CHR 0x0A, CHR 0x0A] @ ''Current user request:'' @ [CHR 0x0A] @ ''Hello''"

section \<open>Properties\<close>

subsection \<open>Rounding\<close>

text \<open>An integer of magnitude up to 2^53 is a double: rounding leaves it as it is.\<close>

lemma ilog2_bounds:
  assumes "0 < x"
  shows "2 powi (ilog2 x) \<le> x" and "x < 2 powi (ilog2 x + 1)"
proof -
  obtain p q where pq: "quotient_of x = (p, q)" by (cases "quotient_of x")
  then have q: "0 < q" and x: "x = of_int p / of_int q"
    using quotient_of_denom_pos quotient_of_div by blast+
  with assms have p: "0 < p" by (simp add: zero_less_divide_iff)
  let ?e = "bitlen p - bitlen q"
  have bp: "(2::rat) powi (bitlen p - 1) \<le> of_int p" "of_int p < (2::rat) powi (bitlen p)"
  proof -
    have "0 \<le> bitlen p - 1" using p by (simp add: bitlen_def floorlog_def)
    from bitlen_bounds [OF p] have "(2::int) ^ nat (bitlen p - 1) \<le> p" "p < 2 ^ nat (bitlen p)" by auto
    then have "(of_int (2 ^ nat (bitlen p - 1)) :: rat) \<le> of_int p" "(of_int p :: rat) < of_int (2 ^ nat (bitlen p))"
      by (simp_all only: of_int_le_iff of_int_less_iff)
    then show "(2::rat) powi (bitlen p - 1) \<le> of_int p" "of_int p < (2::rat) powi (bitlen p)"
      using \<open>0 \<le> bitlen p - 1\<close> by (simp_all add: power_int_def)
  qed
  have bq: "(2::rat) powi (bitlen q - 1) \<le> of_int q" "of_int q < (2::rat) powi (bitlen q)"
  proof -
    have "0 \<le> bitlen q - 1" using q by (simp add: bitlen_def floorlog_def)
    from bitlen_bounds [OF q] have "(2::int) ^ nat (bitlen q - 1) \<le> q" "q < 2 ^ nat (bitlen q)" by auto
    then have "(of_int (2 ^ nat (bitlen q - 1)) :: rat) \<le> of_int q" "(of_int q :: rat) < of_int (2 ^ nat (bitlen q))"
      by (simp_all only: of_int_le_iff of_int_less_iff)
    then show "(2::rat) powi (bitlen q - 1) \<le> of_int q" "of_int q < (2::rat) powi (bitlen q)"
      using \<open>0 \<le> bitlen q - 1\<close> by (simp_all add: power_int_def)
  qed
  have qpos: "(0::rat) < of_int q" using q by simp
  have ppos: "(0::rat) < of_int p" using p by simp
  have pow_pos: "(0::rat) < 2 powi n" for n :: int by simp
  have lo: "(2::rat) powi (?e - 1) \<le> x"
  proof -
    have "(2::rat) powi (?e - 1) = 2 powi (bitlen p - 1) / 2 powi (bitlen q)"
      by (simp add: power_int_diff)
    also have "\<dots> \<le> of_int p / 2 powi (bitlen q)"
      using bp(1) by (simp add: divide_right_mono)
    also have "\<dots> \<le> of_int p / of_int q"
      using bq(2) ppos qpos by (simp add: frac_le)
    finally show ?thesis by (simp add: x)
  qed
  have hi: "x < (2::rat) powi (?e + 1)"
  proof -
    have "x = of_int p / of_int q" by (rule x)
    also have "\<dots> < 2 powi (bitlen p) / of_int q"
      using bp(2) qpos by (simp add: divide_strict_right_mono)
    also have "\<dots> \<le> 2 powi (bitlen p) / 2 powi (bitlen q - 1)"
      using bq(1) by (simp add: frac_le)
    also have "\<dots> = 2 powi (?e + 1)"
      by (simp add: power_int_diff power_int_add)
    finally show ?thesis .
  qed
  show "2 powi (ilog2 x) \<le> x"
    using lo by (simp add: ilog2_def pq Let_def)
  show "x < 2 powi (ilog2 x + 1)"
    using hi by (auto simp: ilog2_def pq Let_def not_le)
qed

lemma round_half_even_of_int [simp]: "round_half_even (of_int m) = m"
  by (simp add: round_half_even_def)

lemma round_double_int:
  assumes "x \<in> \<int>" and "\<bar>x\<bar> \<le> 2 ^ 53"
  shows "round_double x = Finite x"
proof (cases "x = 0")
  case True
  then show ?thesis by (simp add: round_double_def)
next
  case False
  from assms(1) obtain n :: int where n: "x = of_int n" by (auto elim: Ints_cases)
  with False have "n \<noteq> 0" by auto
  then have one: "1 \<le> \<bar>x\<bar>" unfolding n by (simp flip: of_int_abs)
  define e where "e = max (ilog2 \<bar>x\<bar>) (- 1022)"
  have lo: "(2::rat) powi e \<le> \<bar>x\<bar>"
  proof -
    have "(2::rat) powi (ilog2 \<bar>x\<bar>) \<le> \<bar>x\<bar>" using ilog2_bounds(1) [of "\<bar>x\<bar>"] one by simp
    moreover have "(2::rat) powi (- 1022) \<le> 2 powi 0" by (rule power_int_increasing) simp_all
    then have "(2::rat) powi (- 1022) \<le> \<bar>x\<bar>" using one by simp
    ultimately show ?thesis by (simp add: e_def max_def)
  qed
  have e53: "e \<le> 53"
  proof -
    from lo assms(2) have "(2::rat) powi e \<le> 2 powi 53" by (simp add: power_int_def)
    then show ?thesis by (rule power_int_le_imp_le_exp [rotated]) simp_all
  qed
  have "\<exists>m::int. x / 2 powi (e - 52) = of_int m"
  proof (cases "e \<le> 52")
    case True
    then have "(2::rat) powi (52 - e) = of_int (2 ^ nat (52 - e))" by (simp add: power_int_def)
    moreover have "x / 2 powi (e - 52) = x * 2 powi (52 - e)"
      by (simp add: power_int_diff)
    ultimately have "x / 2 powi (e - 52) = of_int (n * 2 ^ nat (52 - e))" by (simp add: n)
    then show ?thesis by blast
  next
    case False
    with e53 have e: "e = 53" by simp
    with lo assms(2) have "\<bar>x\<bar> = 2 ^ 53" by (simp add: power_int_def)
    then have "\<bar>n\<bar> = 2 ^ 53" unfolding n by (simp flip: of_int_abs)
    then have "n = 2 * (n div 2)" by simp presburger
    then have "x / 2 powi (e - 52) = of_int (n div 2)"
      unfolding e n by (simp add: power_int_def)
    then show ?thesis by blast
  qed
  then obtain m :: int where m: "x / 2 powi (e - 52) = of_int m" by blast
  then have y: "of_int (round_half_even (x / 2 powi (e - 52))) * 2 powi (e - 52) = x"
    by (simp add: field_simps)
  have "\<bar>x\<bar> < 2 powi 1024"
  proof -
    have "(2::rat) powi 53 < 2 powi 1024" by (rule power_int_strict_increasing) simp_all
    with assms(2) show ?thesis by (simp add: power_int_def)
  qed
  with False y show ?thesis
    by (simp add: round_double_def Let_def flip: e_def)
qed

text \<open>So the rounding of such an integer needs no computation.\<close>

lemma round_double_code [code]:
  "round_double x =
     (if x = of_int \<lfloor>x\<rfloor> \<and> \<bar>x\<bar> \<le> 9007199254740992 then Finite x
      else let e = max (ilog2 \<bar>x\<bar>) (- 1022);
               ulp = 2 powi (e - 52);
               y = of_int (round_half_even (x / ulp)) * ulp
           in if 2 powi 1024 \<le> \<bar>y\<bar> then (if 0 < x then PosInfinity else NegInfinity)
              else Finite y)"
proof (cases "x = of_int \<lfloor>x\<rfloor> \<and> \<bar>x\<bar> \<le> 9007199254740992")
  case True
  then have "x \<in> \<int>" by (metis Ints_of_int)
  with True show ?thesis by (simp add: round_double_int)
next
  case False
  then have nz: "x \<noteq> 0" by auto
  show ?thesis by (subst round_double_def) (simp only: False nz if_False)
qed

lemma js_plus_int:
  "a + b \<in> \<int> \<Longrightarrow> \<bar>a + b\<bar> \<le> 2 ^ 53 \<Longrightarrow> js_plus a b = Finite (a + b)"
  by (simp add: js_plus_def round_double_int)

lemma js_times_int:
  "a * b \<in> \<int> \<Longrightarrow> \<bar>a * b\<bar> \<le> 2 ^ 53 \<Longrightarrow> js_times a b = Finite (a * b)"
  by (simp add: js_times_def round_double_int)

subsection \<open>Sticky failure of the queue\<close>

text \<open>One \<^verbatim>\<open>next()\<close> call on a fresh queue: a message that is buffered already, a
  message that arrives while the call pends, a failure that has been recorded
  already, a failure while the call pends, and the timer.\<close>

lemma queue_outcomes:
  "fst (queue_run [Push m, Next w] new_queue) = [(w, Resolved m)]"
  "fst (queue_run [Next w, Push m] new_queue) = [(w, Resolved m)]"
  "fst (queue_run [Fail e, Next w] new_queue) = [(w, Rejected e)]"
  "fst (queue_run [Next w, Fail e] new_queue) = [(w, Rejected e)]"
  "fst (queue_run [Next w, Timer w msg] new_queue) = [(w, Rejected msg)]"
  by (simp_all add: new_queue_def queue_next_def queue_push_def queue_fail_def queue_timer_def
        Let_def)

lemma queue_step_sticky:
  assumes "terminalError q = Some e" and "waiters q = []"
  shows "terminalError (snd (queue_step x q)) = Some e \<and> waiters (snd (queue_step x q)) = []"
  using assms
  by (cases x)
     (auto simp: queue_next_def queue_push_def queue_fail_def queue_timer_def split: list.splits)

lemma queue_run_sticky:
  assumes "terminalError q = Some e" and "waiters q = []"
  shows "terminalError (snd (queue_run xs q)) = Some e \<and> waiters (snd (queue_run xs q)) = []"
  using assms
proof (induction xs arbitrary: q)
  case Nil
  then show ?case by simp
next
  case (Cons x xs)
  obtain s q' where step: "queue_step x q = (s, q')" by (cases "queue_step x q")
  with Cons.prems queue_step_sticky [of q e x]
  have "terminalError q' = Some e" and "waiters q' = []" by auto
  from Cons.IH [OF this] step show ?case
    by (auto split: prod.splits)
qed

text \<open>
  C4 (as the code has it). When a connection error or close \<open>error\<close> is observed in
  state \<open>q\<close>, every pending waiter is rejected at once with the first terminal error
  recorded (\<open>error\<close>, or the earlier one when there is one). After any later
  operations that error is still the one recorded and no call pends; a later
  \<^verbatim>\<open>next()\<close> hands out the oldest message still buffered, and fails at once with
  the recorded error as soon as the buffer is empty.
\<close>

theorem queue_fail_sticky:
  fixes q :: queue_state and error :: string and later :: "queue_op list"
  defines "first \<equiv> (case terminalError q of None \<Rightarrow> error | Some e \<Rightarrow> e)"
  defines "q1 \<equiv> snd (queue_fail error q)"
  defines "q2 \<equiv> snd (queue_run later q1)"
  shows "fst (queue_fail error q) = map (\<lambda>w. (w, Rejected first)) (waiters q)
       \<and> terminalError q2 = Some first \<and> waiters q2 = []
       \<and> (queue q2 = [] \<longrightarrow> queue_next w q2 = ([(w, Rejected first)], q2))
       \<and> (\<forall>item rest. queue q2 = item # rest \<longrightarrow>
             queue_next w q2 = ([(w, Resolved item)], q2\<lparr>queue := rest\<rparr>))"
proof -
  have q1: "terminalError q1 = Some first" "waiters q1 = []"
    by (simp_all add: q1_def first_def queue_fail_def Let_def)
  have q2: "terminalError q2 = Some first \<and> waiters q2 = []"
    unfolding q2_def using queue_run_sticky [OF q1] .
  have rej: "fst (queue_fail error q) = map (\<lambda>w. (w, Rejected first)) (waiters q)"
    by (simp add: first_def queue_fail_def Let_def)
  from q2 rej show ?thesis
    by (auto simp: queue_next_def)
qed

theorem queue_fail_sticky_witness:
  "fst (queue_fail ''closed'' \<lparr>queue = [], waiters = [0, 1], terminalError = None\<rparr>)
     = [(0, Rejected ''closed''), (1, Rejected ''closed'')]
   \<and> queue_next 2 (snd (queue_run [Fail ''reset'', Timer 0 ''t'']
        (snd (queue_fail ''closed'' \<lparr>queue = [], waiters = [0, 1], terminalError = None\<rparr>))))
     = ([(2, Rejected ''closed'')],
        \<lparr>queue = [], waiters = [], terminalError = Some ''closed''\<rparr>)"
proof -
  let ?q = "\<lparr>queue = [], waiters = [0, 1], terminalError = None\<rparr>"
  let ?later = "[Fail ''reset'', Timer 0 ''t'']"
  let ?q2 = "snd (queue_run ?later (snd (queue_fail ''closed'' ?q)))"
  have q2: "?q2 = \<lparr>queue = [], waiters = [], terminalError = Some ''closed''\<rparr>"
    by (simp add: queue_fail_def queue_timer_def Let_def)
  have "queue ?q2 = []" by (subst q2) simp
  with queue_fail_sticky [of "''closed''" ?q ?later 2]
  have "queue_next 2 ?q2 = ([(2, Rejected ''closed'')], ?q2)"
    and "fst (queue_fail ''closed'' ?q) = map (\<lambda>w. (w, Rejected ''closed'')) (waiters ?q)"
    by simp_all
  then show ?thesis by (simp only: q2) simp
qed

text \<open>The claim as stated fails: a \<^verbatim>\<open>next()\<close> made after the failure still returns a
  message that was buffered before it.\<close>

theorem queue_next_after_fail_counterexample:
  "fst (queue_next 0 (snd (queue_run [Push [(''type'', JStr ''token'')], Fail ''closed''] new_queue)))
     = [(0, Resolved [(''type'', JStr ''token'')])]"
  by (simp add: new_queue_def queue_push_def queue_fail_def queue_next_def Let_def)

subsection \<open>The two loops of an attempt, event by event\<close>

lemma timed_simps [simp]: "timed [] = []" "timed ((a, m) # xs) = (a, Message m) # timed xs"
  "timed (xs @ ys) = timed xs @ timed ys"
  by (simp_all add: timed_def)

lemma event_messages_simps [simp]:
  "event_messages [] = []"
  "event_messages ((a, Message m) # evs) = m # event_messages evs"
  "event_messages ((a, Failure e) # evs) = event_messages evs"
  "event_messages (xs @ ys) = event_messages xs @ event_messages ys"
  by (simp_all add: event_messages_def List.map_filter_simps) (simp add: List.map_filter_def)

lemma event_messages_timed [simp]: "event_messages (timed xs) = map snd xs"
  by (induction xs) auto

lemma buffered_messages:
  "buffered now evs = Some (m, evs') \<Longrightarrow> event_messages evs = m # event_messages evs'"
  by (induction now evs arbitrary: evs' rule: buffered.induct)
     (auto split: if_splits conn_event.splits option.splits)

lemma timed_next_Delivered:
  "timed_next now t evs = (Delivered m, now', evs') \<Longrightarrow> event_messages evs = m # event_messages evs'"
  by (auto simp: timed_next_def Let_def dest: buffered_messages
           split: list.splits if_splits conn_event.splits option.splits)

lemma timed_next_Message:
  "timed_next now t ((a, Message m) # rest) =
     (if a \<le> now then (Delivered m, now, rest)
      else if now + setTimeout_delay (max 1 t) \<le> a
        then (Thrown (ReadTimeout t), now + setTimeout_delay (max 1 t), (a, Message m) # rest)
      else (Delivered m, a, rest))"
  by (simp add: timed_next_def Let_def)

lemma setTimeout_delay_in_range: "0 < t \<Longrightarrow> t \<le> 2147483647 \<Longrightarrow> setTimeout_delay (max 1 t) = t"
  by (simp add: setTimeout_delay_def)

lemma await_welcome_unfold:
  "await_welcome dl now evs =
     (if dl - now \<le> 0 then (Inl WelcomeTimeout, now, evs)
      else (case timed_next now (dl - now) evs of
              (Thrown e, now', evs') \<Rightarrow> (Inl e, now', evs')
            | (Delivered m, now', evs') \<Rightarrow>
                if readString m ''type'' \<noteq> Some ''welcome''
                then await_welcome dl now' evs'
                else (Inr (readString m ''session_id''), now', evs')))"
  by (subst await_welcome.simps) (simp add: Let_def)

lemma stream_loop_unfold:
  "stream_loop rt r g dl now v evs =
     (if dl - now \<le> 0 then (Failed StreamTimeout, now, evs)
      else (case timed_next now (dl - now) evs of
              (Thrown e, now', evs') \<Rightarrow> (Failed e, now', evs')
            | (Delivered m, now', evs') \<Rightarrow>
                (case handle_frame r g v m of
                   Continue v' \<Rightarrow> stream_loop rt r g (now' + rt) now' v' evs'
                 | Finish v' \<Rightarrow> (Completed v', now', evs')
                 | Retry g' \<Rightarrow> (NeedsRetry g', now', evs')
                 | Throw e \<Rightarrow> (Failed e, now', evs'))))"
  by (subst stream_loop.simps) (simp add: Let_def)

lemma await_welcome_Message:
  assumes "dl - now \<le> 2147483647"
  shows "await_welcome dl now ((a, Message m) # rest) =
     (if dl \<le> now then (Inl WelcomeTimeout, now, (a, Message m) # rest)
      else if dl \<le> a then (Inl (ReadTimeout (dl - now)), dl, (a, Message m) # rest)
      else if readString m ''type'' \<noteq> Some ''welcome'' then await_welcome dl (max now a) rest
      else (Inr (readString m ''session_id''), max now a, rest))"
proof (cases "dl \<le> now")
  case True
  then show ?thesis by (subst await_welcome_unfold) simp
next
  case False
  with assms have "setTimeout_delay (max 1 (dl - now)) = dl - now"
    by (intro setTimeout_delay_in_range) simp_all
  with False show ?thesis
    by (subst await_welcome_unfold) (auto simp: timed_next_Message max_def)
qed

lemma stream_loop_Message:
  assumes "dl - now \<le> 2147483647"
  shows "stream_loop rt r g dl now v ((a, Message m) # rest) =
     (if dl \<le> now then (Failed StreamTimeout, now, (a, Message m) # rest)
      else if dl \<le> a then (Failed (ReadTimeout (dl - now)), dl, (a, Message m) # rest)
      else (case handle_frame r g v m of
              Continue v' \<Rightarrow> stream_loop rt r g (max now a + rt) (max now a) v' rest
            | Finish v' \<Rightarrow> (Completed v', max now a, rest)
            | Retry g' \<Rightarrow> (NeedsRetry g', max now a, rest)
            | Throw e \<Rightarrow> (Failed e, max now a, rest)))"
proof (cases "dl \<le> now")
  case True
  then show ?thesis by (subst stream_loop_unfold) simp
next
  case False
  with assms have "setTimeout_delay (max 1 (dl - now)) = dl - now"
    by (intro setTimeout_delay_in_range) simp_all
  with False show ?thesis
    by (subst stream_loop_unfold) (auto simp: timed_next_Message max_def split: frame_step.splits)
qed

lemma await_welcome_Inr:
  "await_welcome dl now evs = (Inr sid, now', rest) \<Longrightarrow>
     \<exists>pre w. event_messages evs = pre @ w # event_messages rest
        \<and> list_all (\<lambda>m. readString m ''type'' \<noteq> Some ''welcome'') pre
        \<and> readString w ''type'' = Some ''welcome'' \<and> sid = readString w ''session_id''"
proof (induction "length evs" arbitrary: now evs rule: less_induct)
  case less
  from less.prems obtain m t1 evs1 where
    tn: "timed_next now (dl - now) evs = (Delivered m, t1, evs1)"
    and step: "(if readString m ''type'' \<noteq> Some ''welcome''
                then await_welcome dl t1 evs1
                else (Inr (readString m ''session_id''), t1, evs1)) = (Inr sid, now', rest)"
    by (subst (asm) await_welcome_unfold) (auto split: if_splits prod.splits next_result.splits)
  note ms = timed_next_Delivered [OF tn]
  show ?case
  proof (cases "readString m ''type'' = Some ''welcome''")
    case True
    with step have "evs1 = rest" "sid = readString m ''session_id''" by auto
    with True ms have "event_messages evs = [] @ m # event_messages rest
        \<and> list_all (\<lambda>m. readString m ''type'' \<noteq> Some ''welcome'') []
        \<and> readString m ''type'' = Some ''welcome'' \<and> sid = readString m ''session_id''"
      by simp
    then show ?thesis by blast
  next
    case False
    with step have "await_welcome dl t1 evs1 = (Inr sid, now', rest)" by simp
    from less.hyps [OF timed_next_shorter [OF tn] this] obtain pre w where
      "event_messages evs1 = pre @ w # event_messages rest"
      "list_all (\<lambda>m. readString m ''type'' \<noteq> Some ''welcome'') pre"
      "readString w ''type'' = Some ''welcome''" "sid = readString w ''session_id''"
      by blast
    with False ms have "event_messages evs = (m # pre) @ w # event_messages rest
        \<and> list_all (\<lambda>m. readString m ''type'' \<noteq> Some ''welcome'') (m # pre)
        \<and> readString w ''type'' = Some ''welcome'' \<and> sid = readString w ''session_id''"
      by simp
    then show ?thesis by blast
  qed
qed

lemma start_tokens_in_Nil [simp]: "start_tokens_in [] = None"
  by (simp add: start_tokens_in_def List.map_filter_simps)

lemma start_tokens_in_Cons:
  "start_tokens_in (m # ms) =
     (case start_tokens_in ms of Some n \<Rightarrow> Some n | None \<Rightarrow> tokens_in_of m)"
  by (auto simp: start_tokens_in_def tokens_in_of_def List.map_filter_simps split: list.splits option.splits)

lemma handle_frame_Continue:
  assumes "handle_frame r g v m = Continue v'"
  shows "readString m ''type'' \<noteq> Some ''done''"
    and "acc_text v' = acc_text v @ token_payload m"
    and "inputTokens v' = (case tokens_in_of m of Some n \<Rightarrow> Some n | None \<Rightarrow> inputTokens v)"
    and "outputTokens v' = outputTokens v"
  using assms
  by (auto simp: handle_frame_def token_payload_def tokens_in_of_def Let_def
           split: if_splits option.splits json.splits js_number.splits)

lemma handle_frame_Finish:
  assumes "handle_frame r g v m = Finish v'"
  shows "readString m ''type'' = Some ''done''"
    and "acc_text v' = acc_text v"
    and "inputTokens v' = inputTokens v"
    and "outputTokens v' = (case readNumber m ''total_tokens'' of Some n \<Rightarrow> Some n | None \<Rightarrow> outputTokens v)"
  using assms
  by (auto simp: handle_frame_def Let_def split: if_splits option.splits json.splits js_number.splits)

lemma stream_loop_Completed:
  "stream_loop rt r g dl now v evs = (Completed v', now', rest) \<Longrightarrow>
     \<exists>mid d. event_messages evs = mid @ d # event_messages rest
        \<and> list_all (\<lambda>m. readString m ''type'' \<noteq> Some ''done'') mid
        \<and> readString d ''type'' = Some ''done''
        \<and> acc_text v' = acc_text v @ concat (map token_payload mid)
        \<and> inputTokens v' = (case start_tokens_in mid of Some n \<Rightarrow> Some n | None \<Rightarrow> inputTokens v)
        \<and> outputTokens v' = (case readNumber d ''total_tokens'' of Some n \<Rightarrow> Some n | None \<Rightarrow> outputTokens v)"
proof (induction "length evs" arbitrary: now dl v evs rule: less_induct)
  case less
  from less.prems obtain m t1 evs1 where
    tn: "timed_next now (dl - now) evs = (Delivered m, t1, evs1)"
    and step: "(case handle_frame r g v m of
                   Continue v' \<Rightarrow> stream_loop rt r g (t1 + rt) t1 v' evs1
                 | Finish v' \<Rightarrow> (Completed v', t1, evs1)
                 | Retry g' \<Rightarrow> (NeedsRetry g', t1, evs1)
                 | Throw e \<Rightarrow> (Failed e, t1, evs1)) = (Completed v', now', rest)"
    by (subst (asm) stream_loop_unfold) (auto split: if_splits prod.splits next_result.splits)
  note ms = timed_next_Delivered [OF tn]
  show ?case
  proof (cases "handle_frame r g v m")
    case (Continue v1)
    with step have "stream_loop rt r g (t1 + rt) t1 v1 evs1 = (Completed v', now', rest)" by simp
    from less.hyps [OF timed_next_shorter [OF tn] this] obtain mid d where IH:
      "event_messages evs1 = mid @ d # event_messages rest"
      "list_all (\<lambda>m. readString m ''type'' \<noteq> Some ''done'') mid"
      "readString d ''type'' = Some ''done''"
      "acc_text v' = acc_text v1 @ concat (map token_payload mid)"
      "inputTokens v' = (case start_tokens_in mid of Some n \<Rightarrow> Some n | None \<Rightarrow> inputTokens v1)"
      "outputTokens v' = (case readNumber d ''total_tokens'' of Some n \<Rightarrow> Some n | None \<Rightarrow> outputTokens v1)"
      by blast
    note hf = handle_frame_Continue [OF Continue]
    have "event_messages evs = (m # mid) @ d # event_messages rest"
      using IH(1) ms by simp
    moreover have "list_all (\<lambda>m. readString m ''type'' \<noteq> Some ''done'') (m # mid)"
      using IH(2) hf(1) by simp
    moreover have "acc_text v' = acc_text v @ concat (map token_payload (m # mid))"
      using IH(4) hf(2) by simp
    moreover have "inputTokens v' =
        (case start_tokens_in (m # mid) of Some n \<Rightarrow> Some n | None \<Rightarrow> inputTokens v)"
      using IH(5) hf(3) by (simp add: start_tokens_in_Cons split: option.splits)
    moreover have "outputTokens v' =
        (case readNumber d ''total_tokens'' of Some n \<Rightarrow> Some n | None \<Rightarrow> outputTokens v)"
      using IH(6) hf(4) by (simp split: option.splits)
    ultimately show ?thesis using IH(3) by blast
  next
    case (Finish v1)
    with step have eq: "v1 = v'" "evs1 = rest" by auto
    note hf = handle_frame_Finish [OF Finish]
    have "event_messages evs = [] @ m # event_messages rest
        \<and> list_all (\<lambda>m. readString m ''type'' \<noteq> Some ''done'') []
        \<and> readString m ''type'' = Some ''done''
        \<and> acc_text v' = acc_text v @ concat (map token_payload [])
        \<and> inputTokens v' = (case start_tokens_in [] of Some n \<Rightarrow> Some n | None \<Rightarrow> inputTokens v)
        \<and> outputTokens v' = (case readNumber m ''total_tokens'' of Some n \<Rightarrow> Some n | None \<Rightarrow> outputTokens v)"
      using hf eq ms by simp
    then show ?thesis by blast
  next
    case (Retry g')
    with step show ?thesis by simp
  next
    case (Throw e)
    with step show ?thesis by simp
  qed
qed

lemma opens_append [simp]: "opens (xs @ ys) = opens xs @ opens ys"
  by (induction xs rule: opens.induct) auto

lemma sent_configs_append [simp]: "sent_configs (xs @ ys) = sent_configs xs @ sent_configs ys"
  by (induction xs rule: sent_configs.induct) auto

lemma run_connection_trace:
  "opens (snd (run_connection p r g c)) = [target p]"
  by (auto simp: run_connection_def Let_def split: option.splits prod.splits sum.splits stream_result.splits)

lemma run_connection_Returned:
  assumes "run_connection p r g c = (Returned res, tr)"
  shows "\<exists>pre w mid d post.
           script_messages c = pre @ w # mid @ d # post
         \<and> list_all (\<lambda>m. readString m ''type'' \<noteq> Some ''welcome'') pre
         \<and> readString w ''type'' = Some ''welcome''
         \<and> list_all (\<lambda>m. readString m ''type'' \<noteq> Some ''done'') mid
         \<and> readString d ''type'' = Some ''done''
         \<and> res = attempt_result_of (case readString w ''session_id'' of Some s \<Rightarrow> s | None \<Rightarrow> uuid c)
              \<lparr>inputTokens = start_tokens_in mid,
               outputTokens = readNumber d ''total_tokens'',
               acc_text = concat (map token_payload mid)\<rparr>"
proof -
  from assms obtain sid t1 evs1 v t2 evs2 where
    opn: "open_outcome c = None"
    and w: "await_welcome (started_at c + readTimeoutMs p) (started_at c) (events c) = (Inr sid, t1, evs1)"
    and st: "stream_loop (readTimeoutMs p) r g (t1 + readTimeoutMs p) t1
               \<lparr>inputTokens = None, outputTokens = None, acc_text = []\<rparr> evs1 = (Completed v, t2, evs2)"
    and res: "res = attempt_result_of (case sid of Some s \<Rightarrow> s | None \<Rightarrow> uuid c) v"
    by (auto simp: run_connection_def Let_def split: option.splits prod.splits sum.splits stream_result.splits)
  from await_welcome_Inr [OF w] obtain pre w' where W:
    "event_messages (events c) = pre @ w' # event_messages evs1"
    "list_all (\<lambda>m. readString m ''type'' \<noteq> Some ''welcome'') pre"
    "readString w' ''type'' = Some ''welcome''" "sid = readString w' ''session_id''"
    by blast
  from stream_loop_Completed [OF st] obtain mid d where S:
    "event_messages evs1 = mid @ d # event_messages evs2"
    "list_all (\<lambda>m. readString m ''type'' \<noteq> Some ''done'') mid"
    "readString d ''type'' = Some ''done''"
    "acc_text v = concat (map token_payload mid)"
    "inputTokens v = start_tokens_in mid"
    "outputTokens v = readNumber d ''total_tokens''"
    by (auto split: option.splits)
  have 1: "script_messages c = pre @ w' # mid @ d # event_messages evs2"
    using W(1) S(1) by (simp add: script_messages_def)
  have "v = \<lparr>inputTokens = start_tokens_in mid,
             outputTokens = readNumber d ''total_tokens'',
             acc_text = concat (map token_payload mid)\<rparr>"
    using S(4,5,6) by (cases v) simp
  with res W(4) have 5: "res = attempt_result_of (case readString w' ''session_id'' of Some s \<Rightarrow> s | None \<Rightarrow> uuid c)
              \<lparr>inputTokens = start_tokens_in mid,
               outputTokens = readNumber d ''total_tokens'',
               acc_text = concat (map token_payload mid)\<rparr>"
    by simp
  from 1 W(2,3) S(2,3) 5 show ?thesis by blast
qed

lemma frames_split:
  assumes "ms = pre @ w # mid @ d # post"
    and "list_all (\<lambda>m. readString m ''type'' \<noteq> Some ''welcome'') pre"
    and "readString w ''type'' = Some ''welcome''"
    and "list_all (\<lambda>m. readString m ''type'' \<noteq> Some ''done'') mid"
    and "readString d ''type'' = Some ''done''"
  shows "stream_frames ms = mid" and "done_frame ms = Some d"
proof -
  have "dropWhile (\<lambda>m. readString m ''type'' \<noteq> Some ''welcome'') ms = w # mid @ d # post"
    using assms(1,2,3) by (simp add: dropWhile_append3 list_all_iff)
  then have a: "frames_after_welcome ms = mid @ d # post"
    by (simp add: frames_after_welcome_def)
  show "stream_frames ms = mid"
    using assms(4,5) by (simp add: stream_frames_def a takeWhile_tail list_all_iff)
  show "done_frame ms = Some d"
    using assms(4,5) unfolding done_frame_def a
    by (induction mid) auto
qed

lemma attempt_from_2: "attempt_from p net (Suc (Suc 0)) r g = (Inl RetryFailed, [])"
  by (subst attempt_from.simps) simp

lemma handle_frame_retried: "handle_frame True g v m \<noteq> Retry g'"
  by (auto simp: handle_frame_def Let_def split: option.splits json.splits)

lemma stream_loop_retried:
  "stream_loop rt True g dl now v evs \<noteq> (NeedsRetry g', now', rest)"
proof (induction "length evs" arbitrary: now dl v evs rule: less_induct)
  case less
  show ?case
  proof
    assume a: "stream_loop rt True g dl now v evs = (NeedsRetry g', now', rest)"
    then obtain m t1 evs1 where
      tn: "timed_next now (dl - now) evs = (Delivered m, t1, evs1)"
      and step: "(case handle_frame True g v m of
                   Continue v' \<Rightarrow> stream_loop rt True g (t1 + rt) t1 v' evs1
                 | Finish v' \<Rightarrow> (Completed v', t1, evs1)
                 | Retry g' \<Rightarrow> (NeedsRetry g', t1, evs1)
                 | Throw e \<Rightarrow> (Failed e, t1, evs1)) = (NeedsRetry g', now', rest)"
      by (subst (asm) stream_loop_unfold) (auto split: if_splits prod.splits next_result.splits)
    show False
    proof (cases "handle_frame True g v m")
      case (Continue v1)
      with step less.hyps [OF timed_next_shorter [OF tn]] show False by simp
    next
      case (Retry g1)
      with handle_frame_retried show False by blast
    qed (use step in simp_all)
  qed
qed

lemma run_connection_retried: "run_connection p True g c \<noteq> (Restart g', tr)"
  using stream_loop_retried
  by (auto simp: run_connection_def Let_def split: option.splits prod.splits sum.splits stream_result.splits)

lemma attempt_from_1:
  "attempt_from p net (Suc 0) True g =
     (case run_connection p True g (net 1) of
        (Returned r, tr) \<Rightarrow> (Inr r, tr)
      | (Raised e, tr) \<Rightarrow> (Inl e, tr)
      | (Restart g', tr) \<Rightarrow> (Inl RetryFailed, tr))"
  by (subst attempt_from.simps)
     (auto simp: attempt_from_2 split: prod.splits conn_result.splits)

lemma runLlmwsAttempt_unfold:
  "runLlmwsAttempt p net =
     (case run_connection p False (generation p) (net 0) of
        (Returned r, tr) \<Rightarrow> (Inr r, tr)
      | (Raised e, tr) \<Rightarrow> (Inl e, tr)
      | (Restart g, tr) \<Rightarrow>
          (case run_connection p True g (net 1) of
             (Returned r, tr') \<Rightarrow> (Inr r, tr @ tr')
           | (Raised e, tr') \<Rightarrow> (Inl e, tr @ tr')
           | (Restart g', tr') \<Rightarrow> (Inl RetryFailed, tr @ tr')))"
  unfolding runLlmwsAttempt_def
  by (subst attempt_from.simps)
     (auto simp: attempt_from_1 split: prod.splits conn_result.splits)

lemma attempt_success:
  assumes "runLlmwsAttempt p net = (Inr res, tr)"
  shows "\<exists>r g tr'. run_connection p r g (net (length (opens tr) - 1)) = (Returned res, tr')"
proof (cases "run_connection p False (generation p) (net 0)")
  case (Pair cr tr0)
  have o0: "opens tr0 = [target p]" using run_connection_trace [of p False "generation p" "net 0"] Pair by simp
  show ?thesis
  proof (cases cr)
    case (Returned r)
    with assms Pair have "res = r" "tr = tr0" by (auto simp: runLlmwsAttempt_unfold)
    with Pair Returned o0 show ?thesis by auto
  next
    case (Raised e)
    with assms Pair show ?thesis by (auto simp: runLlmwsAttempt_unfold)
  next
    case (Restart g)
    obtain cr1 tr1 where p1: "run_connection p True g (net 1) = (cr1, tr1)"
      by (cases "run_connection p True g (net 1)")
    have o1: "opens tr1 = [target p]" using run_connection_trace [of p True g "net 1"] p1 by simp
    from assms Pair Restart p1 have "cr1 = Returned res" "tr = tr0 @ tr1"
      by (auto simp: runLlmwsAttempt_unfold split: conn_result.splits)
    with p1 o0 o1 show ?thesis by auto
  qed
qed

lemma clock_after_simps [simp]:
  "clock_after now [] = now"
  "clock_after now ((a, x) # xs) = clock_after (max now a) xs"
  by (simp_all add: clock_after_def)

lemma clock_after_append: "clock_after now (xs @ ys) = clock_after (clock_after now xs) ys"
  by (simp add: clock_after_def)

lemma clock_after_bound:
  "now < dl \<Longrightarrow> list_all (\<lambda>(a, x). a < dl) xs \<Longrightarrow> clock_after now xs < dl"
  by (induction xs arbitrary: now) auto

lemma passes_Continue: "passes m \<Longrightarrow> \<exists>v'. handle_frame r g v m = Continue v'"
  by (auto simp: passes_def bad_budget_def handle_frame_def Let_def split: option.splits json.splits)

lemma clock_after_mono: "now \<le> clock_after now xs"
proof (induction xs arbitrary: now)
  case (Cons x xs)
  obtain a m where x: "x = (a, m)" by (cases x)
  have "now \<le> max now a" by simp
  also have "\<dots> \<le> clock_after (max now a) xs" by (rule Cons.IH)
  finally show ?case by (simp add: x)
qed simp

lemma bad_budget_Retry:
  assumes "readString s ''type'' = Some ''start''" "readNumber s ''tokens_in'' = Some tin"
    "readNumber s ''max_tokens'' = Some mt" "0 < tin" "mt \<le> tin"
    "max_new_tokens g = Some (Finite d)" "0 < d"
  shows "handle_frame False g v s
           = Retry (g\<lparr>max_new_tokens := Some (js_floor (js_add (js_times tin 2) d))\<rparr>)"
  using assms by (simp add: handle_frame_def Let_def)

lemma await_welcome_reaches:
  assumes "list_all (\<lambda>(a, m). readString m ''type'' \<noteq> Some ''welcome'' \<and> a < dl) pre"
    and "readString w ''type'' = Some ''welcome''" and "tw < dl" and "now < dl"
    and "dl - now \<le> 2147483647"
  shows "await_welcome dl now (timed pre @ (tw, Message w) # rest)
           = (Inr (readString w ''session_id''), clock_after now (pre @ [(tw, w)]), rest)"
  using assms
proof (induction pre arbitrary: now)
  case Nil
  then show ?case by (simp add: await_welcome_Message)
next
  case (Cons x pre)
  obtain a m where x: "x = (a, m)" by (cases x)
  from Cons.prems x have 1: "max now a < dl" and 2: "dl - max now a \<le> 2147483647" by simp_all
  from Cons.IH [OF _ Cons.prems(2,3) 1 2] Cons.prems x show ?case
    by (simp add: await_welcome_Message)
qed

lemma stream_loop_passes:
  assumes "list_all (\<lambda>(a, m). passes m) mid" and "0 < rt" and "rt \<le> 2147483647"
    and "arrive_idle rt now (mid @ [(ts, s)])"
  shows "\<exists>v'. stream_loop rt r g (now + rt) now v (timed mid @ (ts, Message s) # post)
           = stream_loop rt r g (clock_after now mid + rt) (clock_after now mid) v' ((ts, Message s) # post)"
  using assms
proof (induction mid arbitrary: now v)
  case Nil
  then show ?case by auto
next
  case (Cons x mid)
  obtain a m where x: "x = (a, m)" by (cases x)
  from Cons.prems x have pm: "passes m" and a: "a < now + rt"
    and rest: "list_all (\<lambda>(a, m). passes m) mid" "arrive_idle rt (max now a) (mid @ [(ts, s)])"
    by simp_all
  from passes_Continue [OF pm] obtain v1 where v1: "handle_frame r g v m = Continue v1" by blast
  from Cons.IH [OF rest(1) Cons.prems(2,3) rest(2), of v1] obtain v' where
    "stream_loop rt r g (max now a + rt) (max now a) v1 (timed mid @ (ts, Message s) # post)
       = stream_loop rt r g (clock_after (max now a) mid + rt) (clock_after (max now a) mid) v' ((ts, Message s) # post)"
    by blast
  with v1 a Cons.prems(2,3) x show ?case
    by (auto simp: stream_loop_Message)
qed

lemma stream_loop_reaches_retry:
  assumes "list_all (\<lambda>(a, m). passes m) mid" and "0 < rt" and "rt \<le> 2147483647"
    and "arrive_idle rt now (mid @ [(ts, s)])"
    and "readString s ''type'' = Some ''start''" "readNumber s ''tokens_in'' = Some tin"
    "readNumber s ''max_tokens'' = Some mt" "0 < tin" "mt \<le> tin"
    "max_new_tokens g = Some (Finite d)" "0 < d"
  shows "stream_loop rt False g (now + rt) now v (timed mid @ (ts, Message s) # post)
           = (NeedsRetry (g\<lparr>max_new_tokens := Some (js_floor (js_add (js_times tin 2) d))\<rparr>),
              clock_after now (mid @ [(ts, s)]), post)"
proof -
  from stream_loop_passes [OF assms(1-4)] obtain v' where
    1: "stream_loop rt False g (now + rt) now v (timed mid @ (ts, Message s) # post)
           = stream_loop rt False g (clock_after now mid + rt) (clock_after now mid) v' ((ts, Message s) # post)"
    by blast
  have "arrive_idle rt (clock_after now mid) [(ts, s)]"
    using assms(4) by (induction mid arbitrary: now) auto
  then have ts: "ts < clock_after now mid + rt" by simp
  show ?thesis
    unfolding 1 using ts assms(2,3) bad_budget_Retry [OF assms(5-11), of v']
    by (simp add: stream_loop_Message clock_after_append)
qed

lemma run_connection_shape:
  "\<exists>tr2. snd (run_connection p r g c) = Open (target p) # tr2 \<and> opens tr2 = []
         \<and> set (sent_configs tr2) \<subseteq> {g}"
  by (auto simp: run_connection_def Let_def split: option.splits prod.splits sum.splits stream_result.splits)

lemma runLlmwsAttempt_opens:
  "length (opens (snd (runLlmwsAttempt p net))) \<le> 2 \<and> set (opens (snd (runLlmwsAttempt p net))) \<subseteq> {target p}"
proof -
  obtain cr tr0 where r0: "run_connection p False (generation p) (net 0) = (cr, tr0)"
    by (cases "run_connection p False (generation p) (net 0)")
  have o0: "opens tr0 = [target p]"
    using run_connection_trace [of p False "generation p" "net 0"] r0 by simp
  show ?thesis
  proof (cases cr)
    case (Restart g)
    obtain cr1 tr1 where r1: "run_connection p True g (net 1) = (cr1, tr1)"
      by (cases "run_connection p True g (net 1)")
    have o1: "opens tr1 = [target p]"
      using run_connection_trace [of p True g "net 1"] r1 by simp
    from r0 r1 Restart o0 o1 show ?thesis
      by (cases cr1) (simp_all add: runLlmwsAttempt_unfold)
  qed (use r0 o0 in \<open>simp_all add: runLlmwsAttempt_unfold\<close>)
qed

lemma await_welcome_late:
  assumes "list_all (\<lambda>(a, m). readString m ''type'' \<noteq> Some ''welcome'') pre"
    and "\<not> list_all (\<lambda>(a, m). a < dl) (pre @ [(tw, w)])" and "now < dl"
    and "dl - now \<le> 2147483647"
  shows "\<exists>evs. await_welcome dl now (timed pre @ (tw, Message w) # rest)
           = (Inl (ReadTimeout (dl - clock_after now (takeWhile (\<lambda>(a, m). a < dl) (pre @ [(tw, w)])))),
              dl, evs)"
  using assms
proof (induction pre arbitrary: now)
  case Nil
  then show ?case by (simp add: await_welcome_Message)
next
  case (Cons x pre)
  obtain a m where x: "x = (a, m)" by (cases x)
  show ?case
  proof (cases "a < dl")
    case True
    with Cons.prems x have "max now a < dl" "\<not> list_all (\<lambda>(a, m). a < dl) (pre @ [(tw, w)])"
      "list_all (\<lambda>(a, m). readString m ''type'' \<noteq> Some ''welcome'') pre"
      "dl - max now a \<le> 2147483647"
      by simp_all
    from Cons.IH [OF this(3,2,1,4)] True Cons.prems x show ?thesis
      by (simp add: await_welcome_Message)
  next
    case False
    with Cons.prems x show ?thesis by (simp add: await_welcome_Message)
  qed
qed

lemma stream_loop_idle_done:
  assumes "list_all (\<lambda>(a, m). passes m) mid" and "0 < rt" and "rt \<le> 2147483647"
    and "readString d ''type'' = Some ''done''"
    and "arrive_idle rt now (mid @ [(td, d)])"
  shows "\<exists>v'. stream_loop rt r g (now + rt) now v (timed mid @ (td, Message d) # rest)
           = (Completed v', clock_after now (mid @ [(td, d)]), rest)"
proof -
  from stream_loop_passes [OF assms(1,2,3,5)] obtain v' where
    1: "stream_loop rt r g (now + rt) now v (timed mid @ (td, Message d) # rest)
           = stream_loop rt r g (clock_after now mid + rt) (clock_after now mid) v' ((td, Message d) # rest)"
    by blast
  have "arrive_idle rt (clock_after now mid) [(td, d)]"
    using assms(5) by (induction mid arbitrary: now) auto
  then have td: "td < clock_after now mid + rt" by simp
  have "\<exists>v''. handle_frame r g v' d = Finish v''"
    using assms(4) by (simp add: handle_frame_def Let_def)
  then show ?thesis
    unfolding 1 using td assms(2,3)
    by (auto simp: stream_loop_Message clock_after_append)
qed

lemma stream_loop_idle_late:
  assumes "list_all (\<lambda>(a, m). passes m) mid" and "0 < rt" and "rt \<le> 2147483647"
    and "\<not> arrive_idle rt now (mid @ [(td, d)])"
  shows "\<exists>t evs. stream_loop rt r g (now + rt) now v (timed mid @ (td, Message d) # rest)
           = (Failed (ReadTimeout rt), t, evs)"
  using assms
proof (induction mid arbitrary: now v)
  case Nil
  then show ?case by (simp add: stream_loop_Message)
next
  case (Cons x mid)
  obtain a m where x: "x = (a, m)" by (cases x)
  show ?case
  proof (cases "a < now + rt")
    case True
    from Cons.prems x have pm: "passes m" by simp
    from passes_Continue [OF pm] obtain v1 where v1: "handle_frame r g v m = Continue v1" by blast
    from True Cons.prems x have "list_all (\<lambda>(a, m). passes m) mid"
      "\<not> arrive_idle rt (max now a) (mid @ [(td, d)])" by simp_all
    from Cons.IH [OF this(1) Cons.prems(2,3) this(2), of v1] True Cons.prems(2,3) x v1 show ?thesis
      by (simp add: stream_loop_Message)
  next
    case False
    with Cons.prems x show ?thesis by (simp add: stream_loop_Message)
  qed
qed

subsection \<open>The reads of an attempt and the queue\<close>

text \<open>The queue on which the events that have arrived have been run holds the
  messages among them and the first failure among them.\<close>

lemma arrived_Cons:
  "arrived now ((a, ev) # evs) = (if a \<le> now then (a, ev) # arrived now evs else [])"
  by (simp add: arrived_def)

lemma arrived_Nil [simp]: "arrived now [] = []"
  by (simp add: arrived_def)

lemma queue_run_arrived_from:
  assumes "waiters q = []"
  shows "queue_run (map event_op (arrived now evs)) q =
     ([], q\<lparr>queue := queue q @ event_messages (arrived now evs),
            terminalError := (case terminalError q of
                                Some e \<Rightarrow> Some e
                              | None \<Rightarrow> recorded_error now evs)\<rparr>)"
  using assms
proof (induction evs arbitrary: q)
  case Nil
  then show ?case by (cases "terminalError q") simp_all
next
  case (Cons x evs)
  obtain a ev where x: "x = (a, ev)" by (cases x)
  show ?case
  proof (cases "a \<le> now")
    case False
    then show ?thesis using x by (cases "terminalError q") (simp_all add: arrived_Cons)
  next
    case True
    then have arr: "arrived now (x # evs) = x # arrived now evs" using x by (simp add: arrived_Cons)
    show ?thesis
    proof (cases ev)
      case (Message m)
      let ?q = "q\<lparr>queue := queue q @ [m]\<rparr>"
      have step: "queue_step (event_op x) q = ([], ?q)"
        using x Message Cons.prems by (simp add: queue_push_def)
      have w: "waiters ?q = []" using Cons.prems by simp
      show ?thesis
        unfolding arr using Cons.IH [OF w] step x Message True
        by (simp split: option.splits)
    next
      case (Failure e)
      let ?q = "q\<lparr>terminalError := Some (case terminalError q of None \<Rightarrow> e | Some e' \<Rightarrow> e'), waiters := []\<rparr>"
      have step: "queue_step (event_op x) q = ([], ?q)"
        using x Failure Cons.prems by (simp add: queue_fail_def Let_def)
      have w: "waiters ?q = []" by simp
      show ?thesis
        unfolding arr using Cons.IH [OF w] step x Failure True Cons.prems
        by (cases q) (simp split: option.splits)
    qed
  qed
qed

lemma queue_run_arrived:
  "queue_run (map event_op (arrived now evs)) new_queue =
     ([], \<lparr>queue = event_messages (arrived now evs), waiters = [],
           terminalError = recorded_error now evs\<rparr>)"
  using queue_run_arrived_from [of new_queue now evs] by (simp add: new_queue_def)

lemma buffered_None: "buffered now evs = None \<longleftrightarrow> event_messages (arrived now evs) = []"
  by (induction now evs rule: buffered.induct)
     (auto simp: arrived_Cons split: conn_event.splits option.splits)

lemma buffered_Some:
  "buffered now evs = Some (m, evs') \<Longrightarrow>
     event_messages (arrived now evs) = m # event_messages (arrived now evs')
     \<and> recorded_error now evs' = recorded_error now evs"
  by (induction now evs arbitrary: evs' rule: buffered.induct)
     (auto simp: arrived_Cons split: if_splits conn_event.splits option.splits)

lemma nothing_arrived:
  assumes "event_messages (arrived now evs) = []" and "recorded_error now evs = None"
  shows "evs = [] \<or> (\<exists>a ev rest. evs = (a, ev) # rest \<and> now < a)"
proof (cases evs)
  case (Cons x rest)
  obtain a ev where x: "x = (a, ev)" by (cases x)
  with assms Cons have "now < a"
    by (cases ev) (auto simp: arrived_Cons split: if_splits)
  with Cons x show ?thesis by simp
qed simp

text \<open>
  A read at clock \<open>now\<close> is what the queue does: let \<open>q\<close> be the queue on which the
  events that have arrived, of those still to be consumed, have been run. When \<open>q\<close>
  buffers a message or has recorded an error, \<^verbatim>\<open>next()\<close> settles at once, with the
  result of the read, and hands on the queue of the events that remain. Otherwise the
  call pends, and it is settled with the result of the read by the next event, or by
  its timer when that fires first.
\<close>

lemma timed_next_queue:
  fixes now t :: int and evs :: "(int \<times> conn_event) list" and w :: nat and num :: "rat \<Rightarrow> string"
  defines "q \<equiv> snd (queue_run (map event_op (arrived now evs)) new_queue)"
  defines "fires \<equiv> now + setTimeout_delay (max 1 t)"
  defines "r \<equiv> fst (timed_next now t evs)"
  defines "now' \<equiv> fst (snd (timed_next now t evs))"
  defines "evs' \<equiv> snd (snd (timed_next now t evs))"
  defines "by_timer \<equiv>
     queue_timer w (error_message num (ReadTimeout t)) (snd (queue_next w q))
       = ([(w, settled num r)], q) \<and> now' = fires"
  shows "if queue q \<noteq> [] \<or> terminalError q \<noteq> None
         then queue_next w q
                = ([(w, settled num r)], snd (queue_run (map event_op (arrived now evs')) new_queue))
              \<and> now' = now
         else queue_next w q = ([], q\<lparr>waiters := [w]\<rparr>)
              \<and> (case evs of
                    [] \<Rightarrow> by_timer
                  | (a, ev) # rest \<Rightarrow>
                      if fires \<le> a then by_timer
                      else fst (queue_step (event_op (a, ev)) (snd (queue_next w q)))
                             = [(w, settled num r)] \<and> now' = a)"
proof -
  have q: "q = \<lparr>queue = event_messages (arrived now evs), waiters = [],
                terminalError = recorded_error now evs\<rparr>"
    by (simp add: q_def queue_run_arrived)
  show ?thesis
  proof (cases "buffered now evs")
    case (Some x)
    obtain m rest where x: "x = (m, rest)" by (cases x)
    note b = buffered_Some [OF Some [unfolded x]]
    have tn: "timed_next now t evs = (Delivered m, now, rest)"
      using Some x by (simp add: timed_next_def)
    have "snd (queue_run (map event_op (arrived now rest)) new_queue)
        = \<lparr>queue = event_messages (arrived now rest), waiters = [],
           terminalError = recorded_error now evs\<rparr>"
      using b by (simp add: queue_run_arrived)
    then show ?thesis
      using b by (simp add: q r_def now'_def evs'_def tn queue_next_def)
  next
    case None
    then have nomsg: "event_messages (arrived now evs) = []" by (simp add: buffered_None)
    show ?thesis
    proof (cases "recorded_error now evs")
      case (Some e)
      have tn: "timed_next now t evs = (Thrown (SocketError e), now, evs)"
        using None Some by (simp add: timed_next_def)
      show ?thesis
        using nomsg Some by (simp add: q r_def now'_def evs'_def tn queue_next_def queue_run_arrived)
    next
      case noerr: None
      have pend: "queue_next w q = ([], q\<lparr>waiters := [w]\<rparr>)"
        using nomsg noerr by (simp add: q queue_next_def)
      from nothing_arrived [OF nomsg noerr] show ?thesis
      proof
        assume e: "evs = []"
        have tn: "timed_next now t [] = (Thrown (ReadTimeout t), fires, [])"
          by (simp add: timed_next_def fires_def Let_def)
        show ?thesis
          using nomsg noerr e pend
          by (simp add: by_timer_def r_def now'_def tn queue_timer_def) (simp add: q)
      next
        assume "\<exists>a ev rest. evs = (a, ev) # rest \<and> now < a"
        then obtain a ev rest where e: "evs = (a, ev) # rest" and a: "now < a" by blast
        have tn: "timed_next now t ((a, ev) # rest) =
            (if fires \<le> a then (Thrown (ReadTimeout t), fires, (a, ev) # rest)
             else (case ev of
                     Message m \<Rightarrow> (Delivered m, a, rest)
                   | Failure x \<Rightarrow> (Thrown (SocketError x), a, (a, ev) # rest)))"
          using a by (cases ev) (simp_all add: timed_next_def fires_def Let_def)
        show ?thesis
        proof (cases "fires \<le> a")
          case True
          with nomsg noerr e pend tn show ?thesis
            by (simp add: by_timer_def r_def now'_def queue_timer_def) (simp add: q)
        next
          case False
          with nomsg noerr e pend tn show ?thesis
            by (cases ev)
               (simp_all add: r_def now'_def queue_push_def queue_fail_def Let_def, simp_all add: q)
        qed
      qed
    qed
  qed
qed

subsection \<open>The text and the usage an attempt returns\<close>

text \<open>
  C2 (as the code has it). When an attempt returns, its text is the concatenation, in
  arrival order, of the string payloads of the \<^verbatim>\<open>token\<close> frames that it received in
  the streaming phase (after the welcome, up to \<^verbatim>\<open>done\<close>) of the last socket it
  opened, nothing removed inside; only the white space at the two ends of the whole
  is trimmed. This holds of every run that returns, also when the socket has
  reported an error with frames still buffered.
\<close>

theorem attempt_text:
  assumes "runLlmwsAttempt p net = (Inr res, tr)"
  shows "text' res =
     trim (concat (map token_payload (stream_frames (script_messages (net (length (opens tr) - 1))))))"
proof -
  from attempt_success [OF assms] obtain r g tr' where
    "run_connection p r g (net (length (opens tr) - 1)) = (Returned res, tr')" by blast
  from run_connection_Returned [OF this] obtain pre w mid d post where
    R: "script_messages (net (length (opens tr) - 1)) = pre @ w # mid @ d # post"
      "list_all (\<lambda>m. readString m ''type'' \<noteq> Some ''welcome'') pre"
      "readString w ''type'' = Some ''welcome''"
      "list_all (\<lambda>m. readString m ''type'' \<noteq> Some ''done'') mid"
      "readString d ''type'' = Some ''done''"
      "res = attempt_result_of (case readString w ''session_id'' of Some s \<Rightarrow> s | None \<Rightarrow> uuid (net (length (opens tr) - 1)))
              \<lparr>inputTokens = start_tokens_in mid,
               outputTokens = readNumber d ''total_tokens'',
               acc_text = concat (map token_payload mid)\<rparr>"
    by blast
  from frames_split(1) [OF R(1-5)] R(6) show ?thesis
    by (simp add: attempt_result_of_def)
qed

theorem attempt_text_witness:
  "runLlmwsAttempt ex_params ex_net = (Inr ex_result, ex_first_pass @ ex_second_pass)
   \<and> trim (concat (map token_payload (stream_frames (script_messages (ex_net 1))))) = ''hi you''
   \<and> fst (runLlmwsAttempt ex_params (ex_only ex_conn_boom))
        = Inr \<lparr>text' = ''x'', sessionId = Some ''s-1'',
               usage = Some \<lparr>input' = None, output' = Some 5, total' = Some (Finite 5)\<rparr>\<rparr>
   \<and> trim (concat (map token_payload (stream_frames (script_messages (ex_only ex_conn_boom 0))))) = ''x''"
proof -
  have run: "runLlmwsAttempt ex_params ex_net = (Inr ex_result, ex_first_pass @ ex_second_pass)"
    by code_simp
  have "length (opens (ex_first_pass @ ex_second_pass)) - 1 = 1"
    by (simp add: ex_first_pass_def ex_second_pass_def)
  with attempt_text [OF run]
  have 1: "text' ex_result = trim (concat (map token_payload (stream_frames (script_messages (ex_net 1)))))"
    by simp
  have boom: "runLlmwsAttempt ex_params (ex_only ex_conn_boom)
        = (Inr \<lparr>text' = ''x'', sessionId = Some ''s-1'',
                usage = Some \<lparr>input' = None, output' = Some 5, total' = Some (Finite 5)\<rparr>\<rparr>,
           ex_first_pass)"
    by code_simp
  have "length (opens ex_first_pass) - 1 = 0"
    by (simp add: ex_first_pass_def)
  with attempt_text [OF boom]
  have 2: "''x'' = trim (concat (map token_payload (stream_frames (script_messages (ex_only ex_conn_boom 0)))))"
    by simp
  from run 1 boom 2 show ?thesis by (simp add: ex_result_def)
qed

text \<open>The claim as stated fails for the token frames that an attempt receives outside
  that phase. A token frame that arrives before the welcome is read and skipped by the
  welcome wait; and the token frames of a socket that is given up for the retry are
  dropped with it.\<close>

theorem attempt_text_counterexample:
  "map token_payload (script_messages ex_conn_early) = [''early '', [], ''ok'', []]
   \<and> runLlmwsAttempt ex_params (ex_only ex_conn_early)
        = (Inr \<lparr>text' = ''ok'', sessionId = Some ''s-1'',
                usage = Some \<lparr>input' = None, output' = Some 5, total' = Some (Finite 5)\<rparr>\<rparr>,
           ex_first_pass)
   \<and> map token_payload (script_messages ex_conn_lost) = [[], ''lost '', []]
   \<and> runLlmwsAttempt ex_params ex_net_lost = (Inr ex_result, ex_first_pass @ ex_second_pass)
   \<and> text' ex_result = ''hi you''"
  by code_simp

text \<open>
  C10 (as the code has it). When an attempt returns, the usage is present exactly when
  a \<^verbatim>\<open>start\<close> frame of the streaming phase of the last socket gave a numeric
  \<^verbatim>\<open>tokens_in\<close> or the \<^verbatim>\<open>done\<close> frame a numeric \<^verbatim>\<open>total_tokens\<close>; its input is the
  \<^verbatim>\<open>tokens_in\<close> of the last such \<^verbatim>\<open>start\<close> frame and its output that \<^verbatim>\<open>total_tokens\<close>;
  its total is the sum of the two as doubles add (an absent one counting 0) when that
  is positive, and absent otherwise. The sum is the exact one whenever that is an
  integer of magnitude up to 2^53.
\<close>

theorem attempt_usage:
  assumes "runLlmwsAttempt p net = (Inr res, tr)"
  defines "ms \<equiv> script_messages (net (length (opens tr) - 1))"
  defines "tin \<equiv> start_tokens_in (stream_frames ms)"
  defines "tout \<equiv> (case done_frame ms of Some d \<Rightarrow> readNumber d ''total_tokens'' | None \<Rightarrow> None)"
  defines "n_in \<equiv> (case tin of Some n \<Rightarrow> n | None \<Rightarrow> 0)"
  defines "n_out \<equiv> (case tout of Some n \<Rightarrow> n | None \<Rightarrow> 0)"
  shows "(usage res \<noteq> None \<longleftrightarrow> tin \<noteq> None \<or> tout \<noteq> None)
       \<and> (\<forall>u. usage res = Some u \<longrightarrow>
             input' u = tin \<and> output' u = tout
           \<and> total' u = (if js_positive (js_plus n_in n_out) then Some (js_plus n_in n_out) else None)
           \<and> (n_in + n_out \<in> \<int> \<and> \<bar>n_in + n_out\<bar> \<le> 2 ^ 53 \<longrightarrow>
                total' u = (if 0 < n_in + n_out then Some (Finite (n_in + n_out)) else None)))"
proof -
  from attempt_success [OF assms(1)] obtain r g tr' where
    "run_connection p r g (net (length (opens tr) - 1)) = (Returned res, tr')" by blast
  from run_connection_Returned [OF this] obtain pre w mid d post where
    R: "ms = pre @ w # mid @ d # post"
      "list_all (\<lambda>m. readString m ''type'' \<noteq> Some ''welcome'') pre"
      "readString w ''type'' = Some ''welcome''"
      "list_all (\<lambda>m. readString m ''type'' \<noteq> Some ''done'') mid"
      "readString d ''type'' = Some ''done''"
      "res = attempt_result_of (case readString w ''session_id'' of Some s \<Rightarrow> s | None \<Rightarrow> uuid (net (length (opens tr) - 1)))
              \<lparr>inputTokens = start_tokens_in mid,
               outputTokens = readNumber d ''total_tokens'',
               acc_text = concat (map token_payload mid)\<rparr>"
    unfolding ms_def by blast
  have io: "tin = start_tokens_in mid" "tout = readNumber d ''total_tokens''"
    unfolding tin_def tout_def using frames_split [OF R(1-5)] by simp_all
  have exact: "js_plus n_in n_out = Finite (n_in + n_out)"
    if "n_in + n_out \<in> \<int>" "\<bar>n_in + n_out\<bar> \<le> 2 ^ 53"
    using that by (rule js_plus_int)
  have pres: "usage res \<noteq> None \<longleftrightarrow> tin \<noteq> None \<or> tout \<noteq> None"
    using R(6) io by (simp add: attempt_result_of_def)
  have vals: "input' u = tin \<and> output' u = tout
           \<and> total' u = (if js_positive (js_plus n_in n_out) then Some (js_plus n_in n_out) else None)"
    if "usage res = Some u" for u
    using that R(6) io
    by (auto simp: attempt_result_of_def n_in_def n_out_def Let_def split: if_splits)
  have "total' u = (if 0 < n_in + n_out then Some (Finite (n_in + n_out)) else None)"
    if "usage res = Some u" "n_in + n_out \<in> \<int>" "\<bar>n_in + n_out\<bar> \<le> 2 ^ 53" for u
    using vals [OF that(1)] exact [OF that(2,3)] by simp
  with pres vals show ?thesis by blast
qed

theorem attempt_usage_witness:
  "runLlmwsAttempt ex_params ex_net = (Inr ex_result, ex_first_pass @ ex_second_pass)
   \<and> usage ex_result = Some \<lparr>input' = Some 100, output' = Some 5, total' = Some (Finite 105)\<rparr>
   \<and> start_tokens_in (stream_frames (script_messages (ex_net 1))) = Some 100
   \<and> done_frame (script_messages (ex_net 1)) = Some ex_done
   \<and> js_plus 100 5 = Finite 105"
proof -
  have run: "runLlmwsAttempt ex_params ex_net = (Inr ex_result, ex_first_pass @ ex_second_pass)"
    by code_simp
  have idx: "length (opens (ex_first_pass @ ex_second_pass)) - 1 = 1"
    by (simp add: ex_first_pass_def ex_second_pass_def)
  have u: "usage ex_result = Some \<lparr>input' = Some 100, output' = Some 5, total' = Some (Finite 105)\<rparr>"
    by (simp add: ex_result_def)
  have d: "done_frame (script_messages (ex_net 1)) = Some ex_done"
    by code_simp
  have t: "readNumber ex_done ''total_tokens'' = Some 5"
    by (simp add: ex_done_def readNumber_def)
  note au = attempt_usage [OF run, unfolded idx d option.case t]
  from au u have i: "start_tokens_in (stream_frames (script_messages (ex_net 1))) = Some 100"
    by simp
  from au u have "Some (Finite 105)
      = (if js_positive (js_plus 100 5) then Some (js_plus 100 5) else None)"
    unfolding i by simp
  then have "js_plus 100 5 = Finite 105"
    by (simp split: if_splits)
  with run u d i show ?thesis by simp
qed

text \<open>The claim as stated fails in two ways. A \<^verbatim>\<open>start\<close> frame that the attempt receives
  before the welcome gives a numeric \<^verbatim>\<open>tokens_in\<close>, and the usage is absent. And the
  total of 2^53 input tokens and one token in all is 2^53, not their sum.\<close>

theorem attempt_usage_counterexample:
  "map tokens_in_of (script_messages ex_conn_early_start) = [Some 7, None, None, None]
   \<and> runLlmwsAttempt ex_params (ex_only ex_conn_early_start)
        = (Inr \<lparr>text' = ''ok'', sessionId = Some ''s-1'', usage = None\<rparr>, ex_first_pass)
   \<and> runLlmwsAttempt ex_params (ex_only ex_conn_big)
        = (Inr \<lparr>text' = ''ok'', sessionId = Some ''s-1'',
                usage = Some \<lparr>input' = Some 9007199254740992, output' = Some 1,
                              total' = Some (Finite 9007199254740992)\<rparr>\<rparr>,
           ex_first_pass)"
  by code_simp

subsection \<open>The retry for the token budget\<close>

lemma budget_exact:
  assumes "tin \<in> \<int>" "d \<in> \<int>" "0 < tin" "0 < d" "2 * tin + d \<le> 2 ^ 53"
  shows "js_floor (js_add (js_times tin 2) d) = Finite (2 * tin + d)"
proof -
  have 1: "js_times tin 2 = Finite (tin * 2)"
    using assms by (intro js_times_int) auto
  have 2: "js_plus (tin * 2) d = Finite (tin * 2 + d)"
    using assms by (intro js_plus_int) (auto simp: mult.commute)
  from assms(1,2) have "2 * tin + d \<in> \<int>" by auto
  then have "of_int \<lfloor>2 * tin + d\<rfloor> = 2 * tin + d" by (auto elim: Ints_cases)
  with 1 2 show ?thesis by (simp add: mult.commute)
qed

lemma retry_restarts:
  fixes p :: attempt_params and net :: "nat \<Rightarrow> conn" and tin d :: rat
  defines "t0 \<equiv> started_at (net 0)" and "rt \<equiv> readTimeoutMs p"
  defines "resume \<equiv> (case resumeSessionId p of None \<Rightarrow> None
                        | Some s \<Rightarrow> if trim s = [] then None else Some (trim s))"
  defines "budget \<equiv> js_floor (js_add (js_times tin 2) d)"
  assumes opn: "open_outcome (net 0) = None" and rt: "0 < rt" "rt \<le> 2147483647"
    and script: "events (net 0) = timed (pre @ (tw, w) # mid @ [(ts, s)]) @ post"
    and pre: "list_all (\<lambda>(a, m). readString m ''type'' \<noteq> Some ''welcome'' \<and> a < t0 + rt) pre"
    and w: "readString w ''type'' = Some ''welcome''" "tw < t0 + rt"
    and mid: "list_all (\<lambda>(a, m). passes m) mid"
    and idle: "arrive_idle rt (clock_after t0 (pre @ [(tw, w)])) (mid @ [(ts, s)])"
    and s: "readString s ''type'' = Some ''start''" "readNumber s ''tokens_in'' = Some tin"
      "readNumber s ''max_tokens'' = Some mt" "0 < tin" "mt \<le> tin"
    and d: "max_new_tokens (generation p) = Some (Finite d)" "0 < d"
  shows "\<exists>tr2. snd (runLlmwsAttempt p net) =
                   [Open (target p), SendHello resume,
                    SendInference (systemPrompt p) (userPrompt p) (media p) (generation p),
                    Close, Open (target p)] @ tr2
               \<and> opens tr2 = []
               \<and> set (sent_configs tr2) \<subseteq> {(generation p)\<lparr>max_new_tokens := Some budget\<rparr>}"
    and "tin \<in> \<int> \<and> d \<in> \<int> \<and> 2 * tin + d \<le> 2 ^ 53 \<longrightarrow> budget = Finite (2 * tin + d)"
proof -
  let ?g = "(generation p)\<lparr>max_new_tokens := Some budget\<rparr>"
  let ?first = "[Open (target p), SendHello resume,
                 SendInference (systemPrompt p) (userPrompt p) (media p) (generation p), Close]"
  have ev: "events (net 0) = timed pre @ (tw, Message w) # (timed mid @ (ts, Message s) # post)"
    using script by simp
  have t0: "t0 < t0 + rt" "t0 + rt - t0 \<le> 2147483647" using rt by simp_all
  have W: "await_welcome (t0 + rt) t0 (events (net 0))
      = (Inr (readString w ''session_id''), clock_after t0 (pre @ [(tw, w)]),
         timed mid @ (ts, Message s) # post)"
    unfolding ev by (rule await_welcome_reaches [OF pre w t0])
  have S: "stream_loop rt False (generation p) (clock_after t0 (pre @ [(tw, w)]) + rt)
             (clock_after t0 (pre @ [(tw, w)])) v (timed mid @ (ts, Message s) # post)
      = (NeedsRetry ?g, clock_after (clock_after t0 (pre @ [(tw, w)])) (mid @ [(ts, s)]), post)" for v
    unfolding budget_def by (rule stream_loop_reaches_retry [OF mid rt idle s d])
  have c0: "run_connection p False (generation p) (net 0) = (Restart ?g, ?first)"
    using opn W S by (simp add: run_connection_def Let_def resume_def t0_def rt_def)
  from run_connection_shape [of p True ?g "net 1"] obtain tr2 where
    tr2: "snd (run_connection p True ?g (net 1)) = Open (target p) # tr2" "opens tr2 = []"
      "set (sent_configs tr2) \<subseteq> {?g}"
    by blast
  have "snd (runLlmwsAttempt p net) = ?first @ snd (run_connection p True ?g (net 1))"
    by (simp add: runLlmwsAttempt_unfold c0 split: prod.splits conn_result.splits)
  with tr2 have "snd (runLlmwsAttempt p net) = (?first @ [Open (target p)]) @ tr2" by simp
  with tr2(2,3) show "\<exists>tr2. snd (runLlmwsAttempt p net) =
                   [Open (target p), SendHello resume,
                    SendInference (systemPrompt p) (userPrompt p) (media p) (generation p),
                    Close, Open (target p)] @ tr2
               \<and> opens tr2 = []
               \<and> set (sent_configs tr2) \<subseteq> {(generation p)\<lparr>max_new_tokens := Some budget\<rparr>}"
    by auto
  show "tin \<in> \<int> \<and> d \<in> \<int> \<and> 2 * tin + d \<le> 2 ^ 53 \<longrightarrow> budget = Finite (2 * tin + d)"
    unfolding budget_def using s(4) d(2) by (auto intro: budget_exact)
qed

text \<open>
  C1 (as the code has it). Whatever the servers send, an attempt opens at most two
  sockets, all to its own target: a second bad \<^verbatim>\<open>start\<close> frame starts no further retry
  in the same attempt. And let the first socket of an attempt open and deliver its
  welcome in time, and then, with no \<^verbatim>\<open>done\<close> or \<^verbatim>\<open>error\<close> before it, a \<^verbatim>\<open>start\<close>
  frame with a numeric \<^verbatim>\<open>tokens_in\<close> above 0 and a numeric \<^verbatim>\<open>max_tokens\<close> not above
  \<^verbatim>\<open>tokens_in\<close>, and let a positive \<^verbatim>\<open>max_new_tokens\<close> be configured. Then the attempt
  closes that socket and opens one more to the same target, and every request it
  sends there carries as \<^verbatim>\<open>max_new_tokens\<close> the floor of \<^verbatim>\<open>tokens_in * 2\<close> plus the
  configured value, as doubles multiply and add; that is 2 * \<^verbatim>\<open>tokens_in\<close> + the
  configured value when both are integers and it is at most 2^53.
\<close>

theorem retry_for_budget:
  fixes p :: attempt_params and net :: "nat \<Rightarrow> conn" and tin d :: rat
  defines "t0 \<equiv> started_at (net 0)" and "rt \<equiv> readTimeoutMs p"
  defines "resume \<equiv> (case resumeSessionId p of None \<Rightarrow> None
                        | Some s \<Rightarrow> if trim s = [] then None else Some (trim s))"
  defines "budget \<equiv> js_floor (js_add (js_times tin 2) d)"
  shows "length (opens (snd (runLlmwsAttempt p net))) \<le> 2
       \<and> set (opens (snd (runLlmwsAttempt p net))) \<subseteq> {target p}
       \<and> (open_outcome (net 0) = None \<and> 0 < rt \<and> rt \<le> 2147483647
            \<and> events (net 0) = timed (pre @ (tw, w) # mid @ [(ts, s)]) @ post
            \<and> list_all (\<lambda>(a, m). readString m ''type'' \<noteq> Some ''welcome'' \<and> a < t0 + rt) pre
            \<and> readString w ''type'' = Some ''welcome'' \<and> tw < t0 + rt
            \<and> list_all (\<lambda>(a, m). passes m) mid
            \<and> arrive_idle rt (clock_after t0 (pre @ [(tw, w)])) (mid @ [(ts, s)])
            \<and> readString s ''type'' = Some ''start''
            \<and> readNumber s ''tokens_in'' = Some tin \<and> readNumber s ''max_tokens'' = Some mt
            \<and> 0 < tin \<and> mt \<le> tin
            \<and> max_new_tokens (generation p) = Some (Finite d) \<and> 0 < d
          \<longrightarrow> (\<exists>tr2. snd (runLlmwsAttempt p net) =
                        [Open (target p), SendHello resume,
                         SendInference (systemPrompt p) (userPrompt p) (media p) (generation p),
                         Close, Open (target p)] @ tr2
                    \<and> opens tr2 = []
                    \<and> set (sent_configs tr2) \<subseteq> {(generation p)\<lparr>max_new_tokens := Some budget\<rparr>})
              \<and> (tin \<in> \<int> \<and> d \<in> \<int> \<and> 2 * tin + d \<le> 2 ^ 53 \<longrightarrow> budget = Finite (2 * tin + d)))"
proof -
  note two = runLlmwsAttempt_opens [of p net]
  have "(\<exists>tr2. snd (runLlmwsAttempt p net) =
                        [Open (target p), SendHello resume,
                         SendInference (systemPrompt p) (userPrompt p) (media p) (generation p),
                         Close, Open (target p)] @ tr2
                    \<and> opens tr2 = []
                    \<and> set (sent_configs tr2) \<subseteq> {(generation p)\<lparr>max_new_tokens := Some budget\<rparr>})
              \<and> (tin \<in> \<int> \<and> d \<in> \<int> \<and> 2 * tin + d \<le> 2 ^ 53 \<longrightarrow> budget = Finite (2 * tin + d))"
    if h: "open_outcome (net 0) = None" "0 < rt" "rt \<le> 2147483647"
      "events (net 0) = timed (pre @ (tw, w) # mid @ [(ts, s)]) @ post"
      "list_all (\<lambda>(a, m). readString m ''type'' \<noteq> Some ''welcome'' \<and> a < t0 + rt) pre"
      "readString w ''type'' = Some ''welcome''" "tw < t0 + rt"
      "list_all (\<lambda>(a, m). passes m) mid"
      "arrive_idle rt (clock_after t0 (pre @ [(tw, w)])) (mid @ [(ts, s)])"
      "readString s ''type'' = Some ''start''"
      "readNumber s ''tokens_in'' = Some tin" "readNumber s ''max_tokens'' = Some mt"
      "0 < tin" "mt \<le> tin"
      "max_new_tokens (generation p) = Some (Finite d)" "0 < d"
    using retry_restarts [of net p pre tw w mid ts s post tin mt d]
      h unfolding t0_def rt_def resume_def budget_def
    by blast
  with two show ?thesis by blast
qed

theorem retry_for_budget_witness:
  "length (opens (snd (runLlmwsAttempt ex_params (\<lambda>i. ex_conn_bad)))) \<le> 2
   \<and> (\<exists>tr2. snd (runLlmwsAttempt ex_params (\<lambda>i. ex_conn_bad)) =
                ex_first_pass @ [Open ''ws://127.0.0.1:8765''] @ tr2
            \<and> opens tr2 = []
            \<and> set (sent_configs tr2) \<subseteq> {ex_generation\<lparr>max_new_tokens := Some (Finite 232)\<rparr>})
   \<and> js_floor (js_add (js_times 100 2) 32) = Finite 232
   \<and> runLlmwsAttempt ex_params (\<lambda>i. ex_conn_bad)
        = (Inl (ReadTimeout 1000), ex_first_pass @ ex_second_pass)"
proof -
  note r = retry_for_budget [where p = ex_params and net = "\<lambda>i. ex_conn_bad" and pre = "[]"
      and tw = 10 and w = ex_welcome and mid = "[]" and ts = 20 and s = ex_bad_start
      and post = "[]" and tin = 100 and mt = 10 and d = 32]
  have hyps: "open_outcome ex_conn_bad = None \<and> 0 < readTimeoutMs ex_params
    \<and> readTimeoutMs ex_params \<le> 2147483647
    \<and> events ex_conn_bad = timed ([] @ (10, ex_welcome) # [] @ [(20, ex_bad_start)]) @ []
    \<and> list_all (\<lambda>(a, m). readString m ''type'' \<noteq> Some ''welcome''
        \<and> a < started_at ex_conn_bad + readTimeoutMs ex_params) []
    \<and> readString ex_welcome ''type'' = Some ''welcome''
    \<and> 10 < started_at ex_conn_bad + readTimeoutMs ex_params
    \<and> list_all (\<lambda>(a, m). passes m) []
    \<and> arrive_idle (readTimeoutMs ex_params) (clock_after (started_at ex_conn_bad) ([] @ [(10, ex_welcome)]))
       ([] @ [(20, ex_bad_start)])
    \<and> readString ex_bad_start ''type'' = Some ''start''
    \<and> readNumber ex_bad_start ''tokens_in'' = Some 100
    \<and> readNumber ex_bad_start ''max_tokens'' = Some 10
    \<and> (0::rat) < 100 \<and> (10::rat) \<le> 100
    \<and> max_new_tokens (generation ex_params) = Some (Finite 32) \<and> (0::rat) < 32"
    by (simp add: ex_params_def ex_conn_bad_def ex_welcome_def ex_bad_start_def ex_generation_def
          readString_def readNumber_def trim_def js_space_def)
  have ints: "(100::rat) \<in> \<int> \<and> (32::rat) \<in> \<int> \<and> 2 * 100 + 32 \<le> (2::rat) ^ 53" by simp
  from r hyps have concl:
    "length (opens (snd (runLlmwsAttempt ex_params (\<lambda>i. ex_conn_bad)))) \<le> 2"
    "\<exists>tr2. snd (runLlmwsAttempt ex_params (\<lambda>i. ex_conn_bad)) =
             [Open (target ex_params),
              SendHello (case resumeSessionId ex_params of None \<Rightarrow> None
                         | Some s \<Rightarrow> if trim s = [] then None else Some (trim s)),
              SendInference (systemPrompt ex_params) (userPrompt ex_params) (media ex_params)
                (generation ex_params),
              Close, Open (target ex_params)] @ tr2
          \<and> opens tr2 = []
          \<and> set (sent_configs tr2)
               \<subseteq> {(generation ex_params)\<lparr>max_new_tokens := Some (js_floor (js_add (js_times 100 2) 32))\<rparr>}"
    "(100::rat) \<in> \<int> \<and> (32::rat) \<in> \<int> \<and> 2 * 100 + 32 \<le> (2::rat) ^ 53
       \<longrightarrow> js_floor (js_add (js_times 100 2) 32) = Finite (2 * 100 + 32)"
    by blast+
  from concl(3) ints have b: "js_floor (js_add (js_times 100 2) 32) = Finite 232" by simp
  have "\<exists>tr2. snd (runLlmwsAttempt ex_params (\<lambda>i. ex_conn_bad)) =
                ex_first_pass @ [Open ''ws://127.0.0.1:8765''] @ tr2
            \<and> opens tr2 = []
            \<and> set (sent_configs tr2) \<subseteq> {ex_generation\<lparr>max_new_tokens := Some (Finite 232)\<rparr>}"
    using concl(2) unfolding b
    by (simp add: ex_params_def ex_first_pass_def)
  moreover have "runLlmwsAttempt ex_params (\<lambda>i. ex_conn_bad)
        = (Inl (ReadTimeout 1000), ex_first_pass @ ex_second_pass)"
    by code_simp
  ultimately show ?thesis using b concl(1) by simp
qed

text \<open>The claim as stated fails in three ways. Where \<^verbatim>\<open>tokens_in\<close> is 0, the frame
  reports a budget that is not above \<^verbatim>\<open>tokens_in\<close>, and the attempt goes on reading
  from the same socket and returns. A bad \<^verbatim>\<open>start\<close> frame that is received before the
  welcome is skipped by the welcome wait, and the attempt returns from the same socket.
  And the retry is counted for the attempt, not for the call: when both servers of a
  call answer with the bad budget and then stay silent, the call opens four sockets
  and asks for 32, 232, 32 and 232 new tokens.\<close>

theorem retry_for_budget_counterexample:
  "readNumber ex_zero_start ''tokens_in'' = Some 0
   \<and> readNumber ex_zero_start ''max_tokens'' = Some 0
   \<and> runLlmwsAttempt ex_params (\<lambda>i. ex_conn_zero)
        = (Inr \<lparr>text' = ''ok'', sessionId = Some ''s-1'',
                usage = Some \<lparr>input' = Some 0, output' = Some 5, total' = Some (Finite 5)\<rparr>\<rparr>,
           ex_first_pass)
   \<and> map bad_budget (script_messages ex_conn_early_bad) = [True, False, False, False]
   \<and> runLlmwsAttempt ex_params (ex_only ex_conn_early_bad)
        = (Inr \<lparr>text' = ''ok'', sessionId = Some ''s-1'',
                usage = Some \<lparr>input' = None, output' = Some 5, total' = Some (Finite 5)\<rparr>\<rparr>,
           ex_first_pass)
   \<and> opens (traffic (snd (runLlmwsAgent ex_call ex_env_bad)))
        = [''ws://127.0.0.1:9'', ''ws://127.0.0.1:9'', ''ws://127.0.0.1:8765'', ''ws://127.0.0.1:8765'']
   \<and> map max_new_tokens (sent_configs (traffic (snd (runLlmwsAgent ex_call ex_env_bad))))
        = [Some (Finite 32), Some (Finite 232), Some (Finite 32), Some (Finite 232)]"
  by code_simp

subsection \<open>The two read deadlines\<close>

lemma run_connection_timing:
  fixes p :: attempt_params and c :: conn
  defines "t0 \<equiv> started_at c" and "rt \<equiv> readTimeoutMs p"
  defines "hello \<equiv> [Open (target p),
                     SendHello (case resumeSessionId p of None \<Rightarrow> None
                                | Some s \<Rightarrow> if trim s = [] then None else Some (trim s))]"
  assumes opn: "open_outcome c = None" and rt: "0 < rt" "rt \<le> 2147483647"
    and script: "events c = timed (pre @ (tw, w) # mid @ [(td, d)]) @ post"
    and pre: "list_all (\<lambda>(a, m). readString m ''type'' \<noteq> Some ''welcome'') pre"
    and w: "readString w ''type'' = Some ''welcome''"
    and mid: "list_all (\<lambda>(a, m). passes m) mid"
    and d: "readString d ''type'' = Some ''done''"
  shows "list_all (\<lambda>(a, m). a < t0 + rt) (pre @ [(tw, w)]) \<Longrightarrow>
         arrive_idle rt (clock_after t0 (pre @ [(tw, w)])) (mid @ [(td, d)]) \<Longrightarrow>
           \<exists>res. run_connection p r g c
                    = (Returned res,
                       hello @ [SendInference (systemPrompt p) (userPrompt p) (media p) g, Close])"
    and "list_all (\<lambda>(a, m). a < t0 + rt) (pre @ [(tw, w)]) \<Longrightarrow>
         \<not> arrive_idle rt (clock_after t0 (pre @ [(tw, w)])) (mid @ [(td, d)]) \<Longrightarrow>
           run_connection p r g c
             = (Raised (ReadTimeout rt),
                hello @ [SendInference (systemPrompt p) (userPrompt p) (media p) g, Close])"
    and "\<not> list_all (\<lambda>(a, m). a < t0 + rt) (pre @ [(tw, w)]) \<Longrightarrow>
           run_connection p r g c
             = (Raised (ReadTimeout
                  (t0 + rt - clock_after t0 (takeWhile (\<lambda>(a, m). a < t0 + rt) (pre @ [(tw, w)])))),
                hello @ [Close])"
proof -
  have ev: "events c = timed pre @ (tw, Message w) # (timed mid @ (td, Message d) # post)"
    using script by simp
  have t0: "t0 < t0 + rt" "t0 + rt - t0 \<le> 2147483647" using rt by simp_all
  {
    assume h: "list_all (\<lambda>(a, m). a < t0 + rt) (pre @ [(tw, w)])"
    with pre have "list_all (\<lambda>(a, m). readString m ''type'' \<noteq> Some ''welcome'' \<and> a < t0 + rt) pre"
      by (auto simp: list_all_iff)
    moreover from h have "tw < t0 + rt" by simp
    ultimately have W: "await_welcome (t0 + rt) t0 (events c)
        = (Inr (readString w ''session_id''), clock_after t0 (pre @ [(tw, w)]),
           timed mid @ (td, Message d) # post)"
      unfolding ev using w t0 by (intro await_welcome_reaches)
    {
      assume "arrive_idle rt (clock_after t0 (pre @ [(tw, w)])) (mid @ [(td, d)])"
      from stream_loop_idle_done [OF mid rt d this] obtain v' where
        "stream_loop rt r g (clock_after t0 (pre @ [(tw, w)]) + rt) (clock_after t0 (pre @ [(tw, w)]))
            \<lparr>inputTokens = None, outputTokens = None, acc_text = []\<rparr>
            (timed mid @ (td, Message d) # post)
          = (Completed v', clock_after (clock_after t0 (pre @ [(tw, w)])) (mid @ [(td, d)]), post)"
        by blast
      with opn W show "\<exists>res. run_connection p r g c
                    = (Returned res,
                       hello @ [SendInference (systemPrompt p) (userPrompt p) (media p) g, Close])"
        by (simp add: run_connection_def Let_def hello_def t0_def rt_def)
    }
    {
      assume "\<not> arrive_idle rt (clock_after t0 (pre @ [(tw, w)])) (mid @ [(td, d)])"
      from stream_loop_idle_late [OF mid rt this] obtain t evs where
        "stream_loop rt r g (clock_after t0 (pre @ [(tw, w)]) + rt) (clock_after t0 (pre @ [(tw, w)]))
            \<lparr>inputTokens = None, outputTokens = None, acc_text = []\<rparr>
            (timed mid @ (td, Message d) # post)
          = (Failed (ReadTimeout rt), t, evs)"
        by blast
      with opn W show "run_connection p r g c
             = (Raised (ReadTimeout rt),
                hello @ [SendInference (systemPrompt p) (userPrompt p) (media p) g, Close])"
        by (simp add: run_connection_def Let_def hello_def t0_def rt_def)
    }
  }
  {
    assume "\<not> list_all (\<lambda>(a, m). a < t0 + rt) (pre @ [(tw, w)])"
    from await_welcome_late [OF pre this t0] obtain evs where
      "await_welcome (t0 + rt) t0 (timed pre @ (tw, Message w) # (timed mid @ (td, Message d) # post))
         = (Inl (ReadTimeout (t0 + rt - clock_after t0 (takeWhile (\<lambda>(a, m). a < t0 + rt) (pre @ [(tw, w)])))),
            t0 + rt, evs)"
      by blast
    with opn show "run_connection p r g c
             = (Raised (ReadTimeout
                  (t0 + rt - clock_after t0 (takeWhile (\<lambda>(a, m). a < t0 + rt) (pre @ [(tw, w)])))),
                hello @ [Close])"
      by (simp add: run_connection_def Let_def hello_def t0_def rt_def ev)
  }
qed

text \<open>
  C3 (as the code has it). Let the read timeout \<open>rt\<close> of an attempt be positive and
  within the range of the timers (2^31 - 1 ms), and let its first socket open and its
  server send, in this order, messages that are not the welcome, the welcome, frames
  that the streaming loop passes over, and \<^verbatim>\<open>done\<close>. With \<open>t0\<close> the clock when the
  handshake has gone out:

  \<^item> if the welcome or a message before it arrives at \<open>t0 + rt\<close> or later, the attempt
    fails with the read timeout of what was left of \<open>rt\<close> when the last message before
    that was received, without sending its request: in the welcome wait the deadline
    is fixed at \<open>t0 + rt\<close> and no message extends it;
  \<^item> otherwise the attempt sends its request, and it returns exactly when every
    later message arrives less than \<open>rt\<close> after the one before it was received (the
    first one less than \<open>rt\<close> after the welcome was); else it fails with the read
    timeout of the whole \<open>rt\<close>: in the streaming phase the allowance is \<open>rt\<close> again after
    every message.
\<close>

theorem read_deadlines:
  fixes p :: attempt_params and net :: "nat \<Rightarrow> conn"
    and pre :: "(int \<times> message) list" and tw :: int and w :: message
  defines "t0 \<equiv> started_at (net 0)" and "rt \<equiv> readTimeoutMs p"
  defines "hello \<equiv> [Open (target p),
                     SendHello (case resumeSessionId p of None \<Rightarrow> None
                                | Some s \<Rightarrow> if trim s = [] then None else Some (trim s))]"
  defines "request \<equiv> SendInference (systemPrompt p) (userPrompt p) (media p) (generation p)"
  defines "welcomed \<equiv> pre @ [(tw, w)]"
  assumes opn: "open_outcome (net 0) = None" and rt: "0 < rt" "rt \<le> 2147483647"
    and script: "events (net 0) = timed (pre @ (tw, w) # mid @ [(td, d)]) @ post"
    and pre: "list_all (\<lambda>(a, m). readString m ''type'' \<noteq> Some ''welcome'') pre"
    and w: "readString w ''type'' = Some ''welcome''"
    and mid: "list_all (\<lambda>(a, m). passes m) mid"
    and d: "readString d ''type'' = Some ''done''"
  shows "if list_all (\<lambda>(a, m). a < t0 + rt) welcomed
         then (if arrive_idle rt (clock_after t0 welcomed) (mid @ [(td, d)])
               then \<exists>res. runLlmwsAttempt p net = (Inr res, hello @ [request, Close])
               else runLlmwsAttempt p net = (Inl (ReadTimeout rt), hello @ [request, Close]))
         else runLlmwsAttempt p net
                = (Inl (ReadTimeout
                     (t0 + rt - clock_after t0 (takeWhile (\<lambda>(a, m). a < t0 + rt) welcomed))),
                   hello @ [Close])"
proof -
  note rc = run_connection_timing [OF opn rt [unfolded rt_def] script pre w mid d,
      where r = False and g = "generation p", folded rt_def t0_def hello_def welcomed_def request_def]
  show ?thesis
  proof (cases "list_all (\<lambda>(a, m). a < t0 + rt) welcomed")
    case True
    show ?thesis
    proof (cases "arrive_idle rt (clock_after t0 welcomed) (mid @ [(td, d)])")
      case idle: True
      from rc(1) [OF True idle] obtain res where
        "run_connection p False (generation p) (net 0) = (Returned res, hello @ [request, Close])"
        by blast
      then have "runLlmwsAttempt p net = (Inr res, hello @ [request, Close])"
        by (simp add: runLlmwsAttempt_unfold)
      with True idle show ?thesis by auto
    next
      case late: False
      from rc(2) [OF True late]
      have "runLlmwsAttempt p net = (Inl (ReadTimeout rt), hello @ [request, Close])"
        by (simp add: runLlmwsAttempt_unfold)
      with True late show ?thesis by simp
    qed
  next
    case False
    from rc(3) [OF False] False show ?thesis
      by (simp add: runLlmwsAttempt_unfold)
  qed
qed

theorem read_deadlines_witness:
  "(\<exists>res. runLlmwsAttempt ex_params (ex_only ex_conn_steady) = (Inr res, ex_first_pass))
   \<and> arrive_idle 1000 10 [(600, ex_token ''a''), (1200, ex_token ''b''), (1800, ex_done)]
   \<and> runLlmwsAttempt ex_params (ex_only ex_conn_slow)
        = (Inl (ReadTimeout 400), [Open ''ws://127.0.0.1:8765'', SendHello None, Close])"
proof -
  have prm: "readTimeoutMs ex_params = 1000" "target ex_params = ''ws://127.0.0.1:8765''"
    "resumeSessionId ex_params = None" "systemPrompt ex_params = ''Be brief.''"
    "userPrompt ex_params = ''Hello''" "media ex_params = []" "generation ex_params = ex_generation"
    by (simp_all add: ex_params_def)
  have types: "readString ex_welcome ''type'' = Some ''welcome''"
    "readString ex_done ''type'' = Some ''done''"
    "readString ex_ping ''type'' \<noteq> Some ''welcome''"
    "passes (ex_token ''a'')" "passes (ex_token ''b'')" "passes (ex_token ''late'')"
    by (simp_all add: ex_welcome_def ex_done_def ex_ping_def ex_token_def passes_def bad_budget_def
          readString_def trim_def js_space_def)
  have steady: "open_outcome (ex_only ex_conn_steady 0) = None"
    "started_at (ex_only ex_conn_steady 0) = 0"
    "events (ex_only ex_conn_steady 0)
       = timed ([] @ (10, ex_welcome) # [(600, ex_token ''a''), (1200, ex_token ''b'')] @ [(1800, ex_done)]) @ []"
    by (simp_all add: ex_only_def ex_conn_steady_def)
  have slow: "open_outcome (ex_only ex_conn_slow 0) = None"
    "started_at (ex_only ex_conn_slow 0) = 0"
    "events (ex_only ex_conn_slow 0)
       = timed ([(600, ex_ping)] @ (1200, ex_welcome) # [(1800, ex_token ''late'')] @ [(2400, ex_done)]) @ []"
    by (simp_all add: ex_only_def ex_conn_slow_def)
  have idle: "arrive_idle 1000 10 [(600, ex_token ''a''), (1200, ex_token ''b''), (1800, ex_done)]"
    by simp
  have 1: "\<exists>res. runLlmwsAttempt ex_params (ex_only ex_conn_steady) = (Inr res, ex_first_pass)"
    using read_deadlines [where p = ex_params and net = "ex_only ex_conn_steady" and pre = "[]"
        and tw = 10 and w = ex_welcome and mid = "[(600, ex_token ''a''), (1200, ex_token ''b'')]"
        and td = 1800 and d = ex_done and post = "[]", OF steady(1) _ _ steady(3)]
      types idle
    by (simp add: prm steady(2) ex_first_pass_def)
  have 2: "runLlmwsAttempt ex_params (ex_only ex_conn_slow)
        = (Inl (ReadTimeout 400), [Open ''ws://127.0.0.1:8765'', SendHello None, Close])"
    using read_deadlines [where p = ex_params and net = "ex_only ex_conn_slow" and pre = "[(600, ex_ping)]"
        and tw = 1200 and w = ex_welcome and mid = "[(1800, ex_token ''late'')]"
        and td = 2400 and d = ex_done and post = "[]", OF slow(1) _ _ slow(3)]
      types
    by (simp add: prm slow(2))
  from 1 idle 2 show ?thesis by blast
qed

text \<open>The claim as stated fails in the welcome wait: every message of this server
  arrives 600 ms after the one before, within the read timeout of 1000 ms, and the
  attempt gives up 1000 ms after the handshake.\<close>

theorem welcome_wait_not_idle_counterexample:
  "arrive_idle (readTimeoutMs ex_params) (started_at ex_conn_slow) (events ex_conn_slow)
   \<and> runLlmwsAttempt ex_params (\<lambda>i. ex_conn_slow)
        = (Inl (ReadTimeout 400),
           [Open ''ws://127.0.0.1:8765'', SendHello None, Close])"
  by code_simp
subsection \<open>Substrings and trimming\<close>

lemma js_includes_iff: "js_includes a b \<longleftrightarrow> (\<exists>p s. a = p @ b @ s)"
proof (induction a)
  case Nil
  then show ?case by simp
next
  case (Cons c cs)
  have pre: "take (length b) (c # cs) = b \<longleftrightarrow> (\<exists>s. c # cs = b @ s)"
    by (metis append_eq_conv_conj append_take_drop_id)
  show ?case
  proof
    assume "js_includes (c # cs) b"
    then consider "take (length b) (c # cs) = b" | "js_includes cs b" by auto
    then show "\<exists>p s. c # cs = p @ b @ s"
    proof cases
      case 1
      with pre obtain s where "c # cs = [] @ b @ s" by auto
      then show ?thesis by blast
    next
      case 2
      with Cons.IH obtain p s where "cs = p @ b @ s" by blast
      then have "c # cs = (c # p) @ b @ s" by simp
      then show ?thesis by blast
    qed
  next
    assume "\<exists>p s. c # cs = p @ b @ s"
    then obtain p s where ps: "c # cs = p @ b @ s" by blast
    show "js_includes (c # cs) b"
    proof (cases p)
      case Nil
      with ps have "take (length b) (c # cs) = b" by simp
      then show ?thesis by simp
    next
      case (Cons x p')
      with ps have "cs = p' @ b @ s" by simp
      with Cons.IH show ?thesis by auto
    qed
  qed
qed

lemma join_contains: "d \<in> set xs \<Longrightarrow> \<exists>p s. join sep xs = p @ d @ s"
proof (induction sep xs rule: join.induct)
  case (1 sep)
  then show ?case by simp
next
  case (2 sep x)
  then have "join sep [x] = [] @ d @ []" by simp
  then show ?case by blast
next
  case (3 sep x y ys)
  show ?case
  proof (cases "d = x")
    case True
    then have "join sep (x # y # ys) = [] @ d @ (sep @ join sep (y # ys))" by simp
    then show ?thesis by blast
  next
    case False
    with 3 obtain p s where "join sep (y # ys) = p @ d @ s" by auto
    then have "join sep (x # y # ys) = (x @ sep @ p) @ d @ s" by simp
    then show ?thesis by blast
  qed
qed

lemma dropWhile_core:
  assumes "core \<noteq> []" and "\<not> P (hd core)"
  shows "dropWhile P (A @ core @ B) = dropWhile P A @ core @ B"
proof -
  from assms obtain c cs where c: "core = c # cs" "\<not> P c" by (cases core) auto
  show ?thesis
    by (cases "\<forall>x\<in>set A. P x") (auto simp: dropWhile_append c)
qed

lemma trim_core:
  assumes "core \<noteq> []" and "\<not> js_space (hd core)" and "\<not> js_space (last core)"
  shows "trim (A @ core @ B) = dropWhile js_space A @ core @ rev (dropWhile js_space (rev B))"
proof -
  have 1: "dropWhile js_space (A @ core @ B) = dropWhile js_space A @ core @ B"
    using assms(1,2) by (rule dropWhile_core)
  have "rev (dropWhile js_space A @ core @ B) = rev B @ rev core @ rev (dropWhile js_space A)"
    by simp
  moreover have "dropWhile js_space (rev B @ rev core @ rev (dropWhile js_space A))
      = dropWhile js_space (rev B) @ rev core @ rev (dropWhile js_space A)"
    using assms by (intro dropWhile_core) (simp_all add: hd_rev)
  ultimately show ?thesis by (simp add: trim_def 1)
qed

lemma trim_split: "\<exists>l r. d = l @ trim d @ r"
proof -
  let ?y = "dropWhile js_space d"
  have "rev ?y = takeWhile js_space (rev ?y) @ dropWhile js_space (rev ?y)" by simp
  then have "rev (rev ?y) = rev (takeWhile js_space (rev ?y) @ dropWhile js_space (rev ?y))"
    by simp
  then have "?y = rev (dropWhile js_space (rev ?y)) @ rev (takeWhile js_space (rev ?y))"
    by (simp del: takeWhile_dropWhile_id)
  then have "?y = trim d @ rev (takeWhile js_space (rev ?y))" by (simp add: trim_def)
  moreover have "d = takeWhile js_space d @ ?y" by simp
  ultimately have "d = takeWhile js_space d @ trim d @ rev (takeWhile js_space (rev ?y))"
    by metis
  then show ?thesis by blast
qed

lemma trim_ends:
  assumes "trim d \<noteq> []"
  shows "\<not> js_space (hd (trim d))" and "\<not> js_space (last (trim d))"
proof -
  let ?y = "dropWhile js_space d"
  let ?z = "dropWhile js_space (rev ?y)"
  have t: "trim d = rev ?z" by (simp add: trim_def)
  with assms have z: "?z \<noteq> []" by simp
  then have "\<not> js_space (hd ?z)" by (rule hd_dropWhile)
  then show "\<not> js_space (last (trim d))" using z by (simp add: t last_rev)
  have y: "?y \<noteq> []"
  proof
    assume "?y = []"
    then have "?z = []" by (auto dest: set_dropWhileD)
    with z show False by simp
  qed
  then have hy: "\<not> js_space (hd ?y)" by (rule hd_dropWhile)
  have "rev ?y = takeWhile js_space (rev ?y) @ ?z" by simp
  then have "?y = rev ?z @ rev (takeWhile js_space (rev ?y))"
    by (metis rev_append rev_rev_ident)
  with z have "hd ?y = hd (rev ?z)" by (metis hd_append2 rev_is_Nil_conv)
  with hy show "\<not> js_space (hd (trim d))" by (simp add: t)
qed

lemma trim_contains: "\<exists>p s. trim (a @ d @ b) = p @ trim d @ s"
proof (cases "trim d = []")
  case True
  then have "trim (a @ d @ b) = trim (a @ d @ b) @ trim d @ []" by simp
  then show ?thesis by blast
next
  case False
  define core where "core = trim d"
  from trim_split [of d] obtain l r where d: "d = l @ core @ r" unfolding core_def by blast
  have core: "core \<noteq> []" "\<not> js_space (hd core)" "\<not> js_space (last core)"
    using False trim_ends [OF False] by (simp_all add: core_def)
  have "trim (a @ d @ b) = trim ((a @ l) @ core @ (r @ b))" by (simp add: d)
  also have "\<dots> = dropWhile js_space (a @ l) @ core @ rev (dropWhile js_space (rev (r @ b)))"
    using core by (rule trim_core)
  finally show ?thesis unfolding core_def by blast
qed

subsection \<open>The sort of the targets\<close>

lemma tag_matches_le: "tag_matches P t \<le> length P"
  by (simp add: tag_matches_def)

lemma compare_targets_le:
  "compare_targets P x y \<le> 0 \<longleftrightarrow> tag_matches P y \<le> tag_matches P x"
  using tag_matches_le [of P x] tag_matches_le [of P y]
  by (auto simp: compare_targets_def Let_def)

lemma insert_sorted_insort:
  "insert_sorted (compare_targets P) x ys = insort_key (\<lambda>t. - int (tag_matches P t)) x ys"
  by (induction ys) (auto simp: compare_targets_le)

lemma toSorted_sort_key:
  "toSorted (compare_targets P) xs = sort_key (\<lambda>t. - int (tag_matches P t)) xs"
  by (induction xs) (auto simp: toSorted_def sort_key_def insert_sorted_insort)

lemma sorted_map_desc:
  "sorted (map (\<lambda>t. - int (f t)) xs) = sorted_wrt (\<lambda>a b. f b \<le> f a) xs"
  by (induction xs) auto

lemma sortTargets_props:
  fixes ts :: "llmws_target list" and preferred :: "string list"
  defines "P \<equiv> new_Set (map normalizeCapabilityTag preferred)"
  defines "res \<equiv> sortTargetsByCapabilities ts preferred"
  assumes "preferred \<noteq> []"
  shows "mset res = mset ts"
    and "sorted_wrt (\<lambda>a b. tag_matches P b \<le> tag_matches P a) res"
    and "filter (\<lambda>t. tag_matches P t = k) res = filter (\<lambda>t. tag_matches P t = k) ts"
proof -
  have res: "res = sort_key (\<lambda>t. - int (tag_matches P t)) ts"
  proof (cases "length ts \<le> 1")
    case True
    then have "ts = [] \<or> (\<exists>t. ts = [t])" by (cases ts) auto
    then show ?thesis using assms(3) by (auto simp: res_def sortTargetsByCapabilities_def)
  next
    case False
    then show ?thesis using assms(3)
      by (simp add: res_def sortTargetsByCapabilities_def toSorted_sort_key P_def)
  qed
  show "mset res = mset ts" by (simp add: res)
  have "sorted (map (\<lambda>t. - int (tag_matches P t)) res)" by (simp add: res)
  then show "sorted_wrt (\<lambda>a b. tag_matches P b \<le> tag_matches P a) res"
    by (simp add: sorted_map_desc)
  have "filter (\<lambda>t. - int (tag_matches P t) = - int k) res = filter (\<lambda>t. - int (tag_matches P t) = - int k) ts"
    unfolding res by (rule sort_key_stable)
  then show "filter (\<lambda>t. tag_matches P t = k) res = filter (\<lambda>t. tag_matches P t = k) ts"
    by simp
qed

subsection \<open>Failover\<close>

lemma try_targets_char:
  "try_targets nm nt base ts errs =
     (case dropWhile (fails_on nt base) ts of
        [] \<Rightarrow> None
      | t # rest \<Rightarrow> (case fst (attempt_on nt base t) of Inr r \<Rightarrow> Some r | Inl e \<Rightarrow> None),
      errs @ map (failure_detail nm nt base) (takeWhile (fails_on nt base) ts),
      map url (attempted nt base ts),
      concat (map (\<lambda>t. snd (attempt_on nt base t)) (attempted nt base ts)))"
proof (induction ts arbitrary: errs)
  case Nil
  then show ?case by (simp add: attempted_def)
next
  case (Cons t ts)
  obtain o' tr where a: "runLlmwsAttempt (base\<lparr>target := url t\<rparr>) (nt (url t)) = (o', tr)"
    by (cases "runLlmwsAttempt (base\<lparr>target := url t\<rparr>) (nt (url t))")
  show ?case
  proof (cases o')
    case (Inl e)
    with a have f: "fails_on nt base t" "failure_detail nm nt base t = url t @ '': '' @ error_message nm e"
      "snd (attempt_on nt base t) = tr"
      by (simp_all add: fails_on_def failure_detail_def attempt_on_def)
    show ?thesis
      using a Inl f Cons.IH [of "errs @ [url t @ '': '' @ error_message nm e]"]
      by (simp add: attempted_def Let_def)
  next
    case (Inr r)
    with a have f: "\<not> fails_on nt base t" "fst (attempt_on nt base t) = Inr r"
      "snd (attempt_on nt base t) = tr"
      by (simp_all add: fails_on_def attempt_on_def)
    show ?thesis
      using a Inr f by (simp add: attempted_def Let_def)
  qed
qed

lemma trim_nonempty: "s \<noteq> [] \<Longrightarrow> \<not> js_space (hd s) \<Longrightarrow> trim s \<noteq> []"
proof -
  assume s: "s \<noteq> []" "\<not> js_space (hd s)"
  then have 1: "dropWhile js_space s = s" by (cases s) auto
  have "hd s \<in> set (rev s)" using s by simp
  with s(2) have "dropWhile js_space (rev s) \<noteq> []" by (auto simp: dropWhile_eq_Nil_conv)
  then show ?thesis by (simp add: trim_def 1)
qed

lemma endpoints_failed_trim: "trim (endpoints_failed errs) \<noteq> []"
  by (rule trim_nonempty) (simp_all add: endpoints_failed_def js_space_def)

lemma endpoints_failed_contains:
  assumes "d \<in> set errs"
  shows "js_includes (endpoints_failed errs) d" and "js_includes (trim (endpoints_failed errs)) (trim d)"
proof -
  from assms have ne: "errs \<noteq> []" by auto
  from join_contains [OF assms] obtain p s where "join '' | '' errs = p @ d @ s" by blast
  with ne have e: "endpoints_failed errs = (''LLMWS endpoints failed: '' @ p) @ d @ s"
    by (simp add: endpoints_failed_def)
  then show "js_includes (endpoints_failed errs) d" unfolding js_includes_iff by blast
  from trim_contains [of "''LLMWS endpoints failed: '' @ p" d s]
  show "js_includes (trim (endpoints_failed errs)) (trim d)"
    unfolding js_includes_iff e by blast
qed

lemma agent_effects:
  "called (snd (runLlmwsAgent call env))
     = map url (attempted (e_net env) (attempt_base call) (targets (settings call)))"
  "traffic (snd (runLlmwsAgent call env))
     = concat (map (\<lambda>t. snd (attempt_on (e_net env) (attempt_base call) t))
                 (attempted (e_net env) (attempt_base call) (targets (settings call))))"
  unfolding runLlmwsAgent_def try_targets_char
  by (simp_all add: Let_def split: list.splits sum.splits prod.splits)

text \<open>
  C5. The targets are attempted one after the other in the order of the list: the ones
  called are those that fail from the head of the list on and the first one that does
  not, and the socket traffic is that of these attempts, each complete before the
  next. The result of that first successful attempt is what the call returns. When
  every target fails, the call raises one classified failure: its message is the
  trimmed text \<^verbatim>\<open>LLMWS endpoints failed:\<close> followed by the per-target error strings
  joined by \<^verbatim>\<open> | \<close>, so every per-target string occurs in the error thrown and, up to
  white space at its ends, in the message of the failure.
\<close>

theorem failover_order:
  fixes call :: agent_call and env :: agent_env
  defines "ts \<equiv> targets (settings call)"
  defines "fails \<equiv> fails_on (e_net env) (attempt_base call)"
  defines "detail \<equiv> failure_detail (e_num env) (e_net env) (attempt_base call)"
  defines "run \<equiv> runLlmwsAgent call env"
  shows "called (snd run) = map url (attempted (e_net env) (attempt_base call) ts)
       \<and> traffic (snd run)
           = concat (map (\<lambda>t. snd (attempt_on (e_net env) (attempt_base call) t))
                       (attempted (e_net env) (attempt_base call) ts))
       \<and> (\<forall>t rest r. dropWhile fails ts = t # rest
              \<and> fst (attempt_on (e_net env) (attempt_base call) t) = Inr r \<longrightarrow>
            (\<exists>res. fst run = Inr res
               \<and> payloads res = (if e_strip env (text' r) = [] then None
                                  else Some [e_strip env (text' r)])
               \<and> m_usage (agentMeta res) = usage r
               \<and> m_sessionId (agentMeta res)
                    = (case sessionId r of Some s \<Rightarrow> s | None \<Rightarrow> c_sessionId call)))
       \<and> (list_all fails ts \<longrightarrow>
            (\<exists>fe. fst run = Inl fe
               \<and> message fe = trim (endpoints_failed (map detail ts))
               \<and> reason fe = (case e_classify env (message fe) of
                                 Some c \<Rightarrow> c
                               | None \<Rightarrow> if hasConnectivityHint [] (message fe) then Timeout else Unknown)
               \<and> (\<forall>t \<in> set ts. js_includes (endpoints_failed (map detail ts)) (detail t)
                                \<and> js_includes (message fe) (trim (detail t)))))"
proof -
  note ch = try_targets_char [of "e_num env" "e_net env" "attempt_base call" ts "[]"]
  have 1: "called (snd run) = map url (attempted (e_net env) (attempt_base call) ts)"
    unfolding run_def ts_def by (rule agent_effects)
  have 2: "traffic (snd run)
           = concat (map (\<lambda>t. snd (attempt_on (e_net env) (attempt_base call) t))
                       (attempted (e_net env) (attempt_base call) ts))"
    unfolding run_def ts_def by (rule agent_effects)
  have 3: "\<exists>res. fst run = Inr res
               \<and> payloads res = (if e_strip env (text' r) = [] then None
                                  else Some [e_strip env (text' r)])
               \<and> m_usage (agentMeta res) = usage r
               \<and> m_sessionId (agentMeta res)
                    = (case sessionId r of Some s \<Rightarrow> s | None \<Rightarrow> c_sessionId call)"
    if "dropWhile fails ts = t # rest" "fst (attempt_on (e_net env) (attempt_base call) t) = Inr r"
    for t rest r
    unfolding run_def runLlmwsAgent_def ts_def [symmetric] ch
    using that by (simp add: Let_def fails_def split: prod.splits)
  have 4: "\<exists>fe. fst run = Inl fe
               \<and> message fe = trim (endpoints_failed (map detail ts))
               \<and> reason fe = (case e_classify env (message fe) of
                                 Some c \<Rightarrow> c
                               | None \<Rightarrow> if hasConnectivityHint [] (message fe) then Timeout else Unknown)
               \<and> (\<forall>t \<in> set ts. js_includes (endpoints_failed (map detail ts)) (detail t)
                                \<and> js_includes (message fe) (trim (detail t)))"
    if all: "list_all fails ts"
  proof -
    from all have d: "dropWhile (fails_on (e_net env) (attempt_base call)) ts = []"
      "takeWhile (fails_on (e_net env) (attempt_base call)) ts = ts"
      by (simp_all add: list_all_iff fails_def)
    let ?fe = "toFailoverError (e_classify env) (e_status_of env)
                 (ErrorObj (endpoints_failed (map detail ts)) []) (c_provider call) (modelId call)"
    have r: "fst run = Inl ?fe"
      unfolding run_def runLlmwsAgent_def ts_def [symmetric] ch d
      by (simp add: Let_def detail_def)
    have m: "message ?fe = trim (endpoints_failed (map detail ts))"
      using endpoints_failed_trim [of "map detail ts"]
      by (simp add: toFailoverError_def Let_def)
    have rs: "reason ?fe = (case e_classify env (message ?fe) of
                                 Some c \<Rightarrow> c
                               | None \<Rightarrow> if hasConnectivityHint [] (message ?fe) then Timeout else Unknown)"
      unfolding m using endpoints_failed_trim [of "map detail ts"]
      by (simp add: toFailoverError_def Let_def)
    have c: "js_includes (endpoints_failed (map detail ts)) (detail t)
           \<and> js_includes (message ?fe) (trim (detail t))" if "t \<in> set ts" for t
      unfolding m using endpoints_failed_contains [of "detail t" "map detail ts"] that by simp
    from r m rs c show ?thesis by blast
  qed
  from 1 2 3 4 show ?thesis by blast
qed

theorem failover_order_witness:
  "called (snd (runLlmwsAgent ex_call ex_env)) = [''ws://127.0.0.1:9'', ''ws://127.0.0.1:8765'']
   \<and> (\<exists>res. fst (runLlmwsAgent ex_call ex_env) = Inr res \<and> payloads res = Some [''hi you''])
   \<and> (\<exists>fe. fst (runLlmwsAgent ex_call ex_env_down) = Inl fe
          \<and> message fe = ''LLMWS endpoints failed: ws://127.0.0.1:9: connect ECONNREFUSED 127.0.0.1:9 | ws://127.0.0.1:8765: LLMWS read timeout (1000ms)''
          \<and> reason fe = Timeout)"
proof -
  let ?ts = "targets (settings ex_call)"
  let ?t = "\<lparr>url = ''ws://127.0.0.1:8765'', capabilities = []\<rparr>"
  note up = failover_order [of ex_call ex_env]
  note down = failover_order [of ex_call ex_env_down]
  have att: "map url (attempted (e_net ex_env) (attempt_base ex_call) ?ts)
      = [''ws://127.0.0.1:9'', ''ws://127.0.0.1:8765'']"
    by code_simp
  have dw: "dropWhile (fails_on (e_net ex_env) (attempt_base ex_call)) ?ts = ?t # []"
    by code_simp
  have ok: "fst (attempt_on (e_net ex_env) (attempt_base ex_call) ?t) = Inr ex_result"
    by code_simp
  have st: "e_strip ex_env (text' ex_result) = ''hi you''"
    by (simp add: ex_env_def ex_result_def)
  have 1: "called (snd (runLlmwsAgent ex_call ex_env)) = [''ws://127.0.0.1:9'', ''ws://127.0.0.1:8765'']"
    using up att by simp
  from up have "\<forall>t rest r. dropWhile (fails_on (e_net ex_env) (attempt_base ex_call)) ?ts = t # rest
              \<and> fst (attempt_on (e_net ex_env) (attempt_base ex_call) t) = Inr r \<longrightarrow>
            (\<exists>res. fst (runLlmwsAgent ex_call ex_env) = Inr res
               \<and> payloads res = (if e_strip ex_env (text' r) = [] then None
                                  else Some [e_strip ex_env (text' r)]))"
    by blast
  with dw ok have "\<exists>res. fst (runLlmwsAgent ex_call ex_env) = Inr res
               \<and> payloads res = (if e_strip ex_env (text' ex_result) = [] then None
                                  else Some [e_strip ex_env (text' ex_result)])"
    by blast
  then have 2: "\<exists>res. fst (runLlmwsAgent ex_call ex_env) = Inr res \<and> payloads res = Some [''hi you'']"
    by (simp add: st)
  have all: "list_all (fails_on (e_net ex_env_down) (attempt_base ex_call)) ?ts"
    by code_simp
  have msg: "trim (endpoints_failed (map (failure_detail (e_num ex_env_down) (e_net ex_env_down) (attempt_base ex_call)) ?ts))
      = ''LLMWS endpoints failed: ws://127.0.0.1:9: connect ECONNREFUSED 127.0.0.1:9 | ws://127.0.0.1:8765: LLMWS read timeout (1000ms)''"
    by code_simp
  have cls: "e_classify ex_env_down ''LLMWS endpoints failed: ws://127.0.0.1:9: connect ECONNREFUSED 127.0.0.1:9 | ws://127.0.0.1:8765: LLMWS read timeout (1000ms)'' = None"
    by code_simp
  have hint: "hasConnectivityHint [] ''LLMWS endpoints failed: ws://127.0.0.1:9: connect ECONNREFUSED 127.0.0.1:9 | ws://127.0.0.1:8765: LLMWS read timeout (1000ms)''"
    by code_simp
  from down all have "\<exists>fe. fst (runLlmwsAgent ex_call ex_env_down) = Inl fe
               \<and> message fe = trim (endpoints_failed (map (failure_detail (e_num ex_env_down) (e_net ex_env_down) (attempt_base ex_call)) ?ts))
               \<and> reason fe = (case e_classify ex_env_down (message fe) of
                                 Some c \<Rightarrow> c
                               | None \<Rightarrow> if hasConnectivityHint [] (message fe) then Timeout else Unknown)"
    by blast
  then obtain fe where fe: "fst (runLlmwsAgent ex_call ex_env_down) = Inl fe"
    "message fe = ''LLMWS endpoints failed: ws://127.0.0.1:9: connect ECONNREFUSED 127.0.0.1:9 | ws://127.0.0.1:8765: LLMWS read timeout (1000ms)''"
    "reason fe = (case e_classify ex_env_down (message fe) of
                                 Some c \<Rightarrow> c
                               | None \<Rightarrow> if hasConnectivityHint [] (message fe) then Timeout else Unknown)"
    unfolding msg by blast
  from fe(3) have "reason fe = Timeout" unfolding fe(2) cls using hint by simp
  with fe(1,2) have 3: "\<exists>fe. fst (runLlmwsAgent ex_call ex_env_down) = Inl fe
          \<and> message fe = ''LLMWS endpoints failed: ws://127.0.0.1:9: connect ECONNREFUSED 127.0.0.1:9 | ws://127.0.0.1:8765: LLMWS read timeout (1000ms)''
          \<and> reason fe = Timeout"
    by blast
  from 1 2 3 show ?thesis by blast
qed

lemma dedupe_targets_loop_distinct:
  "distinct (map url out) \<Longrightarrow> distinct (map url (dedupe_targets_loop out xs))"
  by (induction xs arbitrary: out) (auto simp: Let_def)

lemma dedupeTargets_distinct: "distinct (map url (dedupeTargets xs))"
  by (simp add: dedupeTargets_def dedupe_targets_loop_distinct)

lemma attempted_Cons:
  "attempted nt base (b # rest) = (if fails_on nt base b then b # attempted nt base rest else [b])"
  by (simp add: attempted_def)

text \<open>
  C7. When the model's configuration prefers capability tags, the deduplicated targets
  are reordered stably by descending match: the result holds the same targets, still
  with distinct URLs, in descending number of matched tags, those matching every
  preferred tag first, and the targets of one number in their original order. So a
  target that alone matches every preferred tag is first in the list and the first
  to be called, and when its attempt succeeds no other target is called.
\<close>

theorem capability_order:
  fixes configured :: "llmws_target list" and preferredRaw :: "string list"
  defines "D \<equiv> dedupeTargets (configured @ [\<lparr>url = DEFAULT_LLMWS_ENDPOINT, capabilities = []\<rparr>])"
  defines "P \<equiv> new_Set (map normalizeCapabilityTag (dedupeCapabilityTags preferredRaw))"
  defines "ts \<equiv> resolve_targets configured preferredRaw"
  assumes pref: "dedupeCapabilityTags preferredRaw \<noteq> []"
  shows "mset ts = mset D \<and> distinct (map url ts)
       \<and> sorted_wrt (\<lambda>a b. tag_matches P b \<le> tag_matches P a) ts
       \<and> sorted_wrt (\<lambda>a b. tag_matches P b = length P \<longrightarrow> tag_matches P a = length P) ts
       \<and> (\<forall>k. filter (\<lambda>t. tag_matches P t = k) ts = filter (\<lambda>t. tag_matches P t = k) D)
       \<and> (\<forall>b. b \<in> set D \<and> tag_matches P b = length P
               \<and> (\<forall>t \<in> set D. t \<noteq> b \<longrightarrow> tag_matches P t < length P) \<longrightarrow>
             hd ts = b
             \<and> (\<forall>call env. targets (settings call) = ts \<longrightarrow>
                   hd (called (snd (runLlmwsAgent call env))) = url b
                   \<and> (\<not> fails_on (e_net env) (attempt_base call) b \<longrightarrow>
                        called (snd (runLlmwsAgent call env)) = [url b])))"
proof -
  have ts: "ts = sortTargetsByCapabilities D (dedupeCapabilityTags preferredRaw)"
    by (simp add: ts_def resolve_targets_def D_def)
  note sp = sortTargets_props [where ts = D and preferred = "dedupeCapabilityTags preferredRaw",
      OF pref, folded P_def, folded ts]
  have m: "mset ts = mset D" by (rule sp(1))
  have srt: "sorted_wrt (\<lambda>a b. tag_matches P b \<le> tag_matches P a) ts" by (rule sp(2))
  have "mset (map url ts) = mset (map url D)" using m by (metis mset_map)
  then have dist: "distinct (map url ts)"
    using dedupeTargets_distinct [of "configured @ [\<lparr>url = DEFAULT_LLMWS_ENDPOINT, capabilities = []\<rparr>]"]
    unfolding D_def [symmetric] by (metis mset_eq_imp_distinct_iff)
  have full: "sorted_wrt (\<lambda>a b. tag_matches P b = length P \<longrightarrow> tag_matches P a = length P) ts"
    by (rule sorted_wrt_mono_rel [OF _ srt]) (use tag_matches_le [of P] in \<open>auto simp: le_antisym\<close>)
  have stab: "filter (\<lambda>t. tag_matches P t = k) ts = filter (\<lambda>t. tag_matches P t = k) D" for k
    by (rule sp(3))
  have first: "hd ts = b
             \<and> (\<forall>call env. targets (settings call) = ts \<longrightarrow>
                   hd (called (snd (runLlmwsAgent call env))) = url b
                   \<and> (\<not> fails_on (e_net env) (attempt_base call) b \<longrightarrow>
                        called (snd (runLlmwsAgent call env)) = [url b]))"
    if b: "b \<in> set D" "tag_matches P b = length P"
      "\<forall>t \<in> set D. t \<noteq> b \<longrightarrow> tag_matches P t < length P" for b
  proof -
    from b(1) m have bin: "b \<in> set ts" by (metis set_mset_mset)
    then obtain x rest where xr: "ts = x # rest" by (cases ts) auto
    from srt xr have "\<forall>y \<in> set rest. tag_matches P y \<le> tag_matches P x" by simp
    with bin xr have "tag_matches P b \<le> tag_matches P x" by auto
    with b(2) tag_matches_le [of P x] have "tag_matches P x = length P" by simp
    moreover have "x \<in> set D" using xr m by (metis list.set_intros(1) set_mset_mset)
    ultimately have x: "x = b" using b(3) by auto
    have c1: "hd (called (snd (runLlmwsAgent call env))) = url b"
      if "targets (settings call) = ts" for call env
      using that by (simp add: agent_effects xr x attempted_Cons)
    have c2: "called (snd (runLlmwsAgent call env)) = [url b]"
      if "targets (settings call) = ts" "\<not> fails_on (e_net env) (attempt_base call) b" for call env
      using that by (simp add: agent_effects xr x attempted_Cons)
    from xr x have "hd ts = b" by simp
    with c1 c2 show ?thesis by blast
  qed
  from m dist srt full stab first show ?thesis by blast
qed

theorem capability_order_witness:
  "resolve_targets [ex_fast, ex_vision] [''vision'']
     = [ex_vision, ex_fast, \<lparr>url = DEFAULT_LLMWS_ENDPOINT, capabilities = []\<rparr>]
   \<and> hd (called (snd (runLlmwsAgent ex_call_caps ex_env_caps))) = url ex_vision
   \<and> called (snd (runLlmwsAgent ex_call_caps ex_env_caps)) = [''ws://127.0.0.1:9002'']"
proof -
  let ?D = "dedupeTargets ([ex_fast, ex_vision] @ [\<lparr>url = DEFAULT_LLMWS_ENDPOINT, capabilities = []\<rparr>])"
  let ?P = "new_Set (map normalizeCapabilityTag (dedupeCapabilityTags [''vision'']))"
  have pref: "dedupeCapabilityTags [''vision''] \<noteq> []" by code_simp
  note co = capability_order [OF pref, where configured = "[ex_fast, ex_vision]"]
  have b: "ex_vision \<in> set ?D" "tag_matches ?P ex_vision = length ?P"
    "\<forall>t \<in> set ?D. t \<noteq> ex_vision \<longrightarrow> tag_matches ?P t < length ?P"
    by code_simp+
  have r: "resolve_targets [ex_fast, ex_vision] [''vision'']
     = [ex_vision, ex_fast, \<lparr>url = DEFAULT_LLMWS_ENDPOINT, capabilities = []\<rparr>]"
    by code_simp
  have t: "targets (settings ex_call_caps) = resolve_targets [ex_fast, ex_vision] [''vision'']"
    by (simp add: ex_call_caps_def)
  have ok: "\<not> fails_on (e_net ex_env_caps) (attempt_base ex_call_caps) ex_vision"
    by code_simp
  from co b have "\<forall>call env. targets (settings call) = resolve_targets [ex_fast, ex_vision] [''vision''] \<longrightarrow>
                   hd (called (snd (runLlmwsAgent call env))) = url ex_vision
                   \<and> (\<not> fails_on (e_net env) (attempt_base call) ex_vision \<longrightarrow>
                        called (snd (runLlmwsAgent call env)) = [url ex_vision])"
    by blast
  with t ok have "hd (called (snd (runLlmwsAgent ex_call_caps ex_env_caps))) = url ex_vision"
    "called (snd (runLlmwsAgent ex_call_caps ex_env_caps)) = [url ex_vision]"
    by blast+
  with r show ?thesis by (simp add: ex_vision_def)
qed

subsection \<open>The outgoing prompt\<close>

lemma sent_prompts_append [simp]: "sent_prompts (xs @ ys) = sent_prompts xs @ sent_prompts ys"
  by (induction xs rule: sent_prompts.induct) auto

lemma run_connection_prompts: "set (sent_prompts (snd (run_connection p r g c))) \<subseteq> {userPrompt p}"
  by (auto simp: run_connection_def Let_def split: option.splits prod.splits sum.splits stream_result.splits)

lemma runLlmwsAttempt_prompts: "set (sent_prompts (snd (runLlmwsAttempt p nt))) \<subseteq> {userPrompt p}"
proof -
  have a: "set (sent_prompts tr) \<subseteq> {userPrompt p}" if "run_connection p r g c = (x, tr)" for r g c x tr
    using run_connection_prompts [of p r g c] that by simp
  show ?thesis
    unfolding runLlmwsAttempt_unfold
    by (auto split: prod.splits conn_result.splits dest!: a)
qed

text \<open>
  C8. Every request of the call carries the same user prompt. When a history block or a
  memory block is present, it is the history block (if present), then the memory
  block (if present), then the marker \<^verbatim>\<open>Current user request:\<close> and, on the next line,
  the raw prompt, the parts separated by an empty line; when neither is present, it is
  the raw prompt and nothing else.
\<close>

theorem prompt_order:
  fixes call :: agent_call and env :: agent_env
  defines "h \<equiv> historyContext call" and "m \<equiv> memoryInjection call" and "q \<equiv> prompt call"
  defines "marker \<equiv> ''Current user request:'' @ [CHR 0x0A] @ q"
  defines "sep \<equiv> [CHR 0x0A, CHR 0x0A]"
  shows "set (sent_prompts (traffic (snd (runLlmwsAgent call env)))) \<subseteq> {promptBody h m q}
       \<and> (\<forall>hh mm. h = Some hh \<and> hh \<noteq> [] \<and> m = Some mm \<and> mm \<noteq> [] \<longrightarrow>
             promptBody h m q = hh @ sep @ mm @ sep @ marker)
       \<and> (\<forall>hh. h = Some hh \<and> hh \<noteq> [] \<and> (m = None \<or> m = Some []) \<longrightarrow>
             promptBody h m q = hh @ sep @ marker)
       \<and> (\<forall>mm. (h = None \<or> h = Some []) \<and> m = Some mm \<and> mm \<noteq> [] \<longrightarrow>
             promptBody h m q = mm @ sep @ marker)
       \<and> ((h = None \<or> h = Some []) \<and> (m = None \<or> m = Some []) \<longrightarrow> promptBody h m q = q)"
proof -
  have "set (sent_prompts (snd (attempt_on (e_net env) (attempt_base call) t))) \<subseteq> {promptBody h m q}" for t
    using runLlmwsAttempt_prompts [of "(attempt_base call)\<lparr>target := url t\<rparr>" "e_net env (url t)"]
    by (simp add: attempt_on_def attempt_base_def h_def m_def q_def)
  then have "set (sent_prompts (concat (map (\<lambda>t. snd (attempt_on (e_net env) (attempt_base call) t)) xs)))
      \<subseteq> {promptBody h m q}" for xs
    by (induction xs) auto
  then have 1: "set (sent_prompts (traffic (snd (runLlmwsAgent call env)))) \<subseteq> {promptBody h m q}"
    by (simp add: agent_effects)
  show ?thesis
    using 1 by (auto simp: promptBody_def promptParts_def Let_def marker_def sep_def)
qed

theorem prompt_order_witness:
  "promptBody (historyContext ex_call) (memoryInjection ex_call) (prompt ex_call) = ex_prompt_body
   \<and> set (sent_prompts (traffic (snd (runLlmwsAgent ex_call ex_env)))) \<subseteq> {ex_prompt_body}
   \<and> sent_prompts (traffic (snd (runLlmwsAgent ex_call ex_env))) = [ex_prompt_body, ex_prompt_body]
   \<and> promptBody None (Some []) ''Hello'' = ''Hello''"
proof -
  note po = prompt_order [of ex_call ex_env]
  have h: "historyContext ex_call = Some ex_history" "ex_history \<noteq> []" "memoryInjection ex_call = None"
    "prompt ex_call = ''Hello''"
    by (simp_all add: ex_call_def ex_history_def)
  from po h have b: "promptBody (historyContext ex_call) (memoryInjection ex_call) (prompt ex_call) = ex_prompt_body"
    unfolding ex_prompt_body_def by auto
  from po have "set (sent_prompts (traffic (snd (runLlmwsAgent ex_call ex_env))))
      \<subseteq> {promptBody (historyContext ex_call) (memoryInjection ex_call) (prompt ex_call)}"
    by blast
  then have s: "set (sent_prompts (traffic (snd (runLlmwsAgent ex_call ex_env)))) \<subseteq> {ex_prompt_body}"
    unfolding b .
  have e: "sent_prompts (traffic (snd (runLlmwsAgent ex_call ex_env))) = [ex_prompt_body, ex_prompt_body]"
    by code_simp
  have n: "promptBody None (Some []) ''Hello'' = ''Hello''"
    by code_simp
  from b s e n show ?thesis by blast
qed

subsection \<open>The transcript\<close>

text \<open>The lines of a text that grows by a line break and more text.\<close>

lemma split_LF: "split_lines_from acc (CHR 0x0A # b) = rev acc # split_lines_from [] b"
  by (cases b) simp_all

lemma split_CRLF: "split_lines_from acc (CHR 0x0D # CHR 0x0A # b) = rev acc # split_lines_from [] b"
  by simp

lemma split_other:
  assumes "c \<noteq> CHR 0x0A" and "c = CHR 0x0D \<longrightarrow> b = [] \<or> hd b \<noteq> CHR 0x0A"
  shows "split_lines_from acc (c # b) = split_lines_from (c # acc) b"
  using assms by (cases b) auto

lemma dropWhile_all_iff:
  "(\<forall>x \<in> set (dropWhile P s). P x) \<longleftrightarrow> (\<forall>x \<in> set s. P x)"
proof
  assume a: "\<forall>x \<in> set (dropWhile P s). P x"
  have "dropWhile P s = []"
  proof (rule ccontr)
    assume ne: "dropWhile P s \<noteq> []"
    then have "\<not> P (hd (dropWhile P s))" by (rule hd_dropWhile)
    moreover from ne have "hd (dropWhile P s) \<in> set (dropWhile P s)" by simp
    ultimately show False using a by blast
  qed
  then show "\<forall>x \<in> set s. P x" by (simp add: dropWhile_eq_Nil_conv)
next
  assume "\<forall>x \<in> set s. P x"
  then show "\<forall>x \<in> set (dropWhile P s). P x" by (auto dest: set_dropWhileD)
qed

lemma trim_empty_iff: "trim s = [] \<longleftrightarrow> (\<forall>c \<in> set s. js_space c)"
  by (simp add: trim_def dropWhile_eq_Nil_conv dropWhile_all_iff)

lemma trim_leading: "\<forall>c \<in> set s. js_space c \<Longrightarrow> trim (s @ x) = trim x"
  by (simp add: trim_def dropWhile_append)

lemma trim_leading_one: "js_space c \<Longrightarrow> trim (c # x) = trim x"
  using trim_leading [of "[c]" x] by simp

lemma trim_trailing: "js_space c \<Longrightarrow> trim (x @ [c]) = trim x"
  by (cases "\<forall>y \<in> set x. js_space y")
     (auto simp: trim_def dropWhile_append dropWhile_eq_Nil_conv dest: set_dropWhileD)

lemma nonblank_simps [simp]:
  "nonblank [] = []"
  "nonblank (l # ls) = (if trim l = [] then nonblank ls else trim l # nonblank ls)"
  by (simp_all add: nonblank_def)

lemma trim_Nil [simp]: "trim [] = []"
  by (simp add: trim_def)

lemma split_append_LF:
  "nonblank (split_lines_from acc (a @ CHR 0x0A # b))
     = nonblank (split_lines_from acc a) @ nonblank (split_lines_from [] b)"
proof (induction acc a rule: split_lines_from.induct)
  case (1 acc)
  show ?case by (simp add: split_LF)
next
  case (2 acc c)
  have cr: "js_space (CHR 0x0D)" by (simp add: js_space_def)
  show ?case
    using trim_trailing [OF cr, of "rev acc"]
    by (auto simp: split_LF)
next
  case (3 acc c d cs)
  then show ?case by auto
qed

lemma split_no_LF: "CHR 0x0A \<notin> set x \<Longrightarrow> split_lines_from acc x = [rev acc @ x]"
proof (induction x arbitrary: acc)
  case Nil
  then show ?case by simp
next
  case (Cons c x)
  then have "split_lines_from acc (c # x) = split_lines_from (c # acc) x"
    by (intro split_other) (auto simp: neq_Nil_conv)
  with Cons show ?case by simp
qed

lemma blank_lines_spaces:
  "nonblank (split_lines_from acc s) = [] \<Longrightarrow> (\<forall>c \<in> set acc \<union> set s. js_space c)"
proof (induction acc s rule: split_lines_from.induct)
  case (1 acc)
  then show ?case by (auto simp: trim_empty_iff split: if_splits)
next
  case (2 acc c)
  then show ?case by (auto simp: trim_empty_iff js_space_def split: if_splits)
next
  case (3 acc c d cs)
  show ?case
  proof (cases "c = CHR 0x0A")
    case True
    with 3 show ?thesis by (auto simp: trim_empty_iff js_space_def split: if_splits)
  next
    case False
    show ?thesis
    proof (cases "c = CHR 0x0D \<and> d = CHR 0x0A")
      case True
      with 3 show ?thesis by (auto simp: trim_empty_iff js_space_def split: if_splits)
    next
      case F2: False
      with False 3 show ?thesis by auto
    qed
  qed
qed

lemma spaces_then_line:
  assumes "\<forall>c \<in> set acc \<union> set w. js_space c" and "CHR 0x0A \<notin> set x" and "trim x \<noteq> []"
  shows "nonblank (split_lines_from acc (w @ x)) = [trim x]"
  using assms
proof (induction acc w rule: split_lines_from.induct)
  case (1 acc)
  then show ?case by (simp add: split_no_LF trim_leading)
next
  case (2 acc c)
  show ?case
  proof (cases "c = CHR 0x0A")
    case True
    with 2 show ?thesis by (simp add: split_LF split_no_LF trim_empty_iff)
  next
    case False
    from 2(3) have xne: "x \<noteq> []" by auto
    from xne 2(2) have "hd x \<noteq> CHR 0x0A" by (cases x) auto
    with xne have x: "x \<noteq> []" "hd x \<noteq> CHR 0x0A" by simp_all
    have "split_lines_from acc (c # x) = split_lines_from (c # acc) x"
      using False x by (intro split_other) auto
    with 2 show ?thesis by (simp add: split_no_LF trim_leading trim_leading_one)
  qed
next
  case (3 acc c d cs)
  show ?case
  proof (cases "c = CHR 0x0A")
    case True
    with 3 show ?thesis by (simp add: split_LF trim_empty_iff)
  next
    case False
    show ?thesis
    proof (cases "c = CHR 0x0D \<and> d = CHR 0x0A")
      case True
      with 3 show ?thesis by (simp add: trim_empty_iff)
    next
      case F2: False
      with False 3 show ?thesis by auto
    qed
  qed
qed

lemma transcript_lines_append_LF:
  "transcript_lines (a @ CHR 0x0A # b) = transcript_lines a @ transcript_lines b"
  using split_append_LF [of "[]" a b]
  by (simp add: transcript_lines_def split_lines_def nonblank_def)

lemma transcript_lines_one:
  "CHR 0x0A \<notin> set x \<Longrightarrow> trim x \<noteq> [] \<Longrightarrow> transcript_lines x = [trim x]"
  by (simp add: transcript_lines_def split_lines_def split_no_LF)

lemma transcript_lines_Nil [simp]: "transcript_lines [] = []"
  by (simp add: transcript_lines_def split_lines_def)

lemma transcript_lines_grow:
  fixes existing l1 l2 :: string
  assumes l1: "CHR 0x0A \<notin> set l1" "trim l1 \<noteq> []" and l2: "CHR 0x0A \<notin> set l2" "trim l2 \<noteq> []"
  defines "prefix \<equiv> (if transcript_lines existing \<noteq> [] \<and> \<not> (existing \<noteq> [] \<and> last existing = CHR 0x0A)
                      then [CHR 0x0A] else [])"
  shows "transcript_lines (existing @ prefix @ l1 @ [CHR 0x0A] @ l2 @ [CHR 0x0A])
           = transcript_lines existing @ [trim l1, trim l2]"
proof -
  have two: "transcript_lines (l2 @ CHR 0x0A # []) = [trim l2]"
    unfolding transcript_lines_append_LF using l2 by (simp add: transcript_lines_one)
  have rest: "transcript_lines (l1 @ CHR 0x0A # l2 @ [CHR 0x0A]) = [trim l1, trim l2]"
    using l1 l2 by (simp add: transcript_lines_append_LF transcript_lines_one)
  consider (brk) "transcript_lines existing \<noteq> []" "\<not> (existing \<noteq> [] \<and> last existing = CHR 0x0A)"
    | (ends) "existing \<noteq> []" "last existing = CHR 0x0A"
    | (blank) "transcript_lines existing = []" "\<not> (existing \<noteq> [] \<and> last existing = CHR 0x0A)"
    by blast
  then show ?thesis
  proof cases
    case brk
    then have p: "prefix = [CHR 0x0A]" by (simp add: prefix_def)
    have "transcript_lines (existing @ CHR 0x0A # (l1 @ CHR 0x0A # l2 @ [CHR 0x0A]))
        = transcript_lines existing @ transcript_lines (l1 @ CHR 0x0A # l2 @ [CHR 0x0A])"
      by (rule transcript_lines_append_LF)
    with rest show ?thesis by (simp add: p)
  next
    case ends
    then have p: "prefix = []" by (simp add: prefix_def)
    from ends obtain e where e: "existing = e @ [CHR 0x0A]"
      by (metis append_butlast_last_id)
    have "transcript_lines (e @ CHR 0x0A # (l1 @ CHR 0x0A # l2 @ [CHR 0x0A]))
        = transcript_lines e @ transcript_lines (l1 @ CHR 0x0A # l2 @ [CHR 0x0A])"
      by (rule transcript_lines_append_LF)
    moreover have "transcript_lines (e @ CHR 0x0A # []) = transcript_lines e @ transcript_lines []"
      by (rule transcript_lines_append_LF)
    ultimately show ?thesis using rest by (simp add: p e)
  next
    case blank
    then have p: "prefix = []" by (simp add: prefix_def)
    from blank(1) have sp: "\<forall>c \<in> set [] \<union> set existing. js_space c"
      by (intro blank_lines_spaces)
         (simp add: transcript_lines_def split_lines_def nonblank_def)
    have one: "transcript_lines (existing @ l1) = [trim l1]"
      using spaces_then_line [OF sp l1]
      by (simp add: transcript_lines_def split_lines_def nonblank_def)
    have "transcript_lines ((existing @ l1) @ CHR 0x0A # (l2 @ CHR 0x0A # []))
        = transcript_lines (existing @ l1) @ transcript_lines (l2 @ CHR 0x0A # [])"
      by (rule transcript_lines_append_LF)
    with one two blank(1) show ?thesis by (simp add: p)
  qed
qed

lemma scan_lines_char:
  "scan_lines prs (hh, li) ls =
     (hh \<or> list_ex (\<lambda>f. map_of f ''type'' = Some (JStr ''session''))
              (List.map_filter (\<lambda>line. case prs line of Some (JObj f) \<Rightarrow> Some f | _ \<Rightarrow> None) ls),
      (case List.map_filter
              (\<lambda>f. if map_of f ''type'' = Some (JStr ''message'') then readString f ''id'' else None)
              (List.map_filter (\<lambda>line. case prs line of Some (JObj f) \<Rightarrow> Some f | _ \<Rightarrow> None) ls) of
         [] \<Rightarrow> li
       | ids \<Rightarrow> Some (last ids)))"
proof (induction ls arbitrary: hh li)
  case Nil
  then show ?case by (simp add: List.map_filter_simps)
next
  case (Cons l ls)
  show ?case
  proof (cases "prs l")
    case None
    then show ?thesis using Cons.IH by (simp add: List.map_filter_simps)
  next
    case (Some j)
    show ?thesis
    proof (cases j)
      case (JObj f)
      show ?thesis
        using Some JObj Cons.IH
        by (auto simp: List.map_filter_simps split: option.splits list.splits)
    qed (use Some Cons.IH in \<open>simp_all add: List.map_filter_simps\<close>)
  qed
qed

lemma additions_with_header:
  assumes "has_session_header prs existing"
  shows "additions prs tenv sid u a existing =
     [JObj [(''type'', JStr ''message''),
             (''id'', JStr (userId tenv)),
             (''parentId'', (case last_message_id prs existing of None \<Rightarrow> JNull | Some ident \<Rightarrow> JStr ident)),
             (''timestamp'', JStr (now_user tenv)),
             (''message'',
              JObj [(''role'', JStr ''user''),
                    (''content'', JArr [JObj [(''type'', JStr ''text''), (''text'', JStr u)]])])],
      JObj [(''type'', JStr ''message''),
             (''id'', JStr (assistantId tenv)),
             (''parentId'', JStr (userId tenv)),
             (''timestamp'', JStr (now_assistant tenv)),
             (''message'',
              JObj [(''role'', JStr ''assistant''),
                    (''content'', JArr [JObj [(''type'', JStr ''text''), (''text'', JStr a)]])])]]"
  using assms
  by (simp add: additions_def scan_lines_char has_session_header_def parsed_records_def
        last_message_id_def)

text \<open>
  C6 (as the code has it). When the lock on the transcript cannot be acquired,
  \<^verbatim>\<open>appendTranscriptMessages\<close> fails with that error and touches nothing else (it
  does not wait for ever). \<^verbatim>\<open>runLlmwsAgent\<close> catches the error: what it returns
  does not depend on the lock or the file at all, and with a non-empty final text it
  returns that text and logs one warning.
\<close>

theorem lock_failure_swallowed:
  fixes call :: agent_call and env :: agent_env
  defines "ts \<equiv> targets (settings call)"
  defines "fails \<equiv> fails_on (e_net env) (attempt_base call)"
  assumes lock: "lock_error (e_fs env) = Some e"
  shows "appendTranscriptMessages prs sfy tenv (e_fs env) sid u a = (Some e, [AcquireLock])
       \<and> fst (runLlmwsAgent call (env\<lparr>e_fs := other\<rparr>)) = fst (runLlmwsAgent call env)
       \<and> (\<forall>t rest r. dropWhile fails ts = t # rest
              \<and> fst (attempt_on (e_net env) (attempt_base call) t) = Inr r
              \<and> e_strip env (text' r) \<noteq> [] \<longrightarrow>
            (\<exists>res. fst (runLlmwsAgent call env) = Inr res
                  \<and> payloads res = Some [e_strip env (text' r)])
            \<and> fs_actions (snd (runLlmwsAgent call env)) = [AcquireLock]
            \<and> warnings (snd (runLlmwsAgent call env)) = [''failed to persist llmws transcript: '' @ e])"
proof -
  have 1: "appendTranscriptMessages prs sfy tenv (e_fs env) sid u a = (Some e, [AcquireLock])"
    for prs sfy tenv sid u a
    using lock by (simp add: appendTranscriptMessages_def)
  have 2: "fst (runLlmwsAgent call (env\<lparr>e_fs := other\<rparr>)) = fst (runLlmwsAgent call env)"
    by (simp add: runLlmwsAgent_def Let_def split: prod.splits option.splits)
  have 3: "(\<exists>res. fst (runLlmwsAgent call env) = Inr res
                  \<and> payloads res = Some [e_strip env (text' r)])
            \<and> fs_actions (snd (runLlmwsAgent call env)) = [AcquireLock]
            \<and> warnings (snd (runLlmwsAgent call env)) = [''failed to persist llmws transcript: '' @ e]"
    if "dropWhile fails ts = t # rest" "fst (attempt_on (e_net env) (attempt_base call) t) = Inr r"
      "e_strip env (text' r) \<noteq> []" for t rest r
    unfolding runLlmwsAgent_def ts_def [symmetric] try_targets_char
    using that by (simp add: Let_def fails_def 1)
  from 1 2 3 show ?thesis by blast
qed

theorem lock_failure_swallowed_witness:
  "appendTranscriptMessages ex_parse ex_stringify ex_append_env (e_fs ex_env_locked)
       ''session-1'' ''Hello'' ''hi you''
     = (Some ''session file locked (timeout 10000ms)'', [AcquireLock])
   \<and> (\<exists>res. fst (runLlmwsAgent ex_call ex_env_locked) = Inr res \<and> payloads res = Some [''hi you''])
   \<and> fs_actions (snd (runLlmwsAgent ex_call ex_env_locked)) = [AcquireLock]
   \<and> warnings (snd (runLlmwsAgent ex_call ex_env_locked))
        = [''failed to persist llmws transcript: session file locked (timeout 10000ms)'']"
proof -
  let ?ts = "targets (settings ex_call)"
  let ?t = "\<lparr>url = ''ws://127.0.0.1:8765'', capabilities = []\<rparr>"
  have lock: "lock_error (e_fs ex_env_locked) = Some ''session file locked (timeout 10000ms)''"
    by (simp add: ex_env_locked_def)
  note lf = lock_failure_swallowed [OF lock, where prs = ex_parse and sfy = ex_stringify
      and tenv = ex_append_env and sid = "''session-1''" and u = "''Hello''" and a = "''hi you''"
      and call = ex_call]
  have dw: "dropWhile (fails_on (e_net ex_env_locked) (attempt_base ex_call)) ?ts = ?t # []"
    by code_simp
  have ok: "fst (attempt_on (e_net ex_env_locked) (attempt_base ex_call) ?t) = Inr ex_result"
    by code_simp
  have st: "e_strip ex_env_locked (text' ex_result) = ''hi you''"
    by (simp add: ex_env_locked_def ex_env_def ex_result_def)
  then have ne: "e_strip ex_env_locked (text' ex_result) \<noteq> []" by simp
  from lf have 1: "appendTranscriptMessages ex_parse ex_stringify ex_append_env (e_fs ex_env_locked)
       ''session-1'' ''Hello'' ''hi you''
     = (Some ''session file locked (timeout 10000ms)'', [AcquireLock])"
    by blast
  from lf have "\<forall>t rest r. dropWhile (fails_on (e_net ex_env_locked) (attempt_base ex_call)) ?ts = t # rest
              \<and> fst (attempt_on (e_net ex_env_locked) (attempt_base ex_call) t) = Inr r
              \<and> e_strip ex_env_locked (text' r) \<noteq> [] \<longrightarrow>
            (\<exists>res. fst (runLlmwsAgent ex_call ex_env_locked) = Inr res
                  \<and> payloads res = Some [e_strip ex_env_locked (text' r)])
            \<and> fs_actions (snd (runLlmwsAgent ex_call ex_env_locked)) = [AcquireLock]
            \<and> warnings (snd (runLlmwsAgent ex_call ex_env_locked))
                 = [''failed to persist llmws transcript: '' @ ''session file locked (timeout 10000ms)'']"
    by blast
  with dw ok ne have "(\<exists>res. fst (runLlmwsAgent ex_call ex_env_locked) = Inr res
                  \<and> payloads res = Some [e_strip ex_env_locked (text' ex_result)])
            \<and> fs_actions (snd (runLlmwsAgent ex_call ex_env_locked)) = [AcquireLock]
            \<and> warnings (snd (runLlmwsAgent ex_call ex_env_locked))
                 = [''failed to persist llmws transcript: '' @ ''session file locked (timeout 10000ms)'']"
    by blast
  with 1 show ?thesis unfolding st by simp
qed

text \<open>The claim as stated fails: with the lock not to be had, the call returns its
  result and raises no failure.\<close>

theorem lock_failure_not_raised_counterexample:
  "lock_error (e_fs ex_env_locked) = Some ''session file locked (timeout 10000ms)''
   \<and> fst (runLlmwsAgent ex_call ex_env_locked) = Inr ex_run_result"
  by code_simp

text \<open>
  C9. On a transcript that already holds a \<^verbatim>\<open>session\<close> header, one turn adds exactly
  two entries and no header. The first is the user message: type \<^verbatim>\<open>message\<close>, the new
  user identifier, a \<^verbatim>\<open>parentId\<close> that is the identifier of the last message entry of
  the file that has one (\<^verbatim>\<open>null\<close> when there is none), role \<^verbatim>\<open>user\<close> and the prompt as
  its one text part. The second is the assistant message: type \<^verbatim>\<open>message\<close>, the new
  assistant identifier, a \<^verbatim>\<open>parentId\<close> that is the identifier of that user message,
  role \<^verbatim>\<open>assistant\<close> and the answer as its one text part. Each is written on a line of
  its own, after a line break when the file does not end with one. So,
  \<^verbatim>\<open>JSON.stringify\<close> giving a text without line break for either entry, the
  transcript read again has the lines it had and these two after them.
\<close>

theorem append_two_messages:
  fixes prs :: "string \<Rightarrow> json option" and sfy :: "json \<Rightarrow> string" and tenv :: append_env
    and existing u a :: string
  defines "LF \<equiv> CHR 0x0A"
  assumes hdr: "has_session_header prs existing"
  defines "U \<equiv>
     JObj [(''type'', JStr ''message''),
           (''id'', JStr (userId tenv)),
           (''parentId'', (case last_message_id prs existing of None \<Rightarrow> JNull | Some ident \<Rightarrow> JStr ident)),
           (''timestamp'', JStr (now_user tenv)),
           (''message'',
            JObj [(''role'', JStr ''user''),
                  (''content'', JArr [JObj [(''type'', JStr ''text''), (''text'', JStr u)]])])]"
  defines "A \<equiv>
     JObj [(''type'', JStr ''message''),
           (''id'', JStr (assistantId tenv)),
           (''parentId'', JStr (userId tenv)),
           (''timestamp'', JStr (now_assistant tenv)),
           (''message'',
            JObj [(''role'', JStr ''assistant''),
                  (''content'', JArr [JObj [(''type'', JStr ''text''), (''text'', JStr a)]])])]"
  defines "prefix \<equiv> (if transcript_lines existing \<noteq> [] \<and> \<not> (existing \<noteq> [] \<and> last existing = LF)
                      then [LF] else [])"
  shows "additions prs tenv sid u a existing = [U, A]
       \<and> appended_text prs sfy tenv sid u a existing = prefix @ sfy U @ [LF] @ sfy A @ [LF]
       \<and> (lock_error fs = None \<and> read_result fs = FileContent existing \<longrightarrow>
            appendTranscriptMessages prs sfy tenv fs sid u a
              = (append_error fs,
                 [AcquireLock, ReadFile, AppendFile (prefix @ sfy U @ [LF] @ sfy A @ [LF]), ReleaseLock]))
       \<and> (LF \<notin> set (sfy U) \<and> trim (sfy U) \<noteq> [] \<and> LF \<notin> set (sfy A) \<and> trim (sfy A) \<noteq> [] \<longrightarrow>
            transcript_lines (existing @ appended_text prs sfy tenv sid u a existing)
              = transcript_lines existing @ [trim (sfy U), trim (sfy A)])"
proof -
  have 1: "additions prs tenv sid u a existing = [U, A]"
    unfolding U_def A_def by (rule additions_with_header [OF hdr])
  have 2: "appended_text prs sfy tenv sid u a existing = prefix @ sfy U @ [LF] @ sfy A @ [LF]"
    by (simp add: appended_text_def 1 prefix_def LF_def)
  have 3: "appendTranscriptMessages prs sfy tenv fs sid u a
              = (append_error fs,
                 [AcquireLock, ReadFile, AppendFile (prefix @ sfy U @ [LF] @ sfy A @ [LF]), ReleaseLock])"
    if "lock_error fs = None" "read_result fs = FileContent existing"
    using that by (simp add: appendTranscriptMessages_def 2)
  have 4: "transcript_lines (existing @ appended_text prs sfy tenv sid u a existing)
              = transcript_lines existing @ [trim (sfy U), trim (sfy A)]"
    if "LF \<notin> set (sfy U)" "trim (sfy U) \<noteq> []" "LF \<notin> set (sfy A)" "trim (sfy A) \<noteq> []"
    unfolding 2 prefix_def using that unfolding LF_def
    by (rule transcript_lines_grow)
  from 1 2 3 4 show ?thesis by blast
qed

theorem append_two_messages_witness:
  "has_session_header ex_parse ex_existing
   \<and> last_message_id ex_parse ex_existing = Some ''m-2''
   \<and> additions ex_parse ex_append_env ''session-1'' ''Hello'' ''hi you'' ex_existing
       = [JObj [(''type'', JStr ''message''), (''id'', JStr ''u-100''), (''parentId'', JStr ''m-2''),
                (''timestamp'', JStr ''2026-01-01T00:00:00.000Z''),
                (''message'',
                 JObj [(''role'', JStr ''user''),
                       (''content'', JArr [JObj [(''type'', JStr ''text''), (''text'', JStr ''Hello'')]])])],
          JObj [(''type'', JStr ''message''), (''id'', JStr ''a-100''), (''parentId'', JStr ''u-100''),
                (''timestamp'', JStr ''2026-01-01T00:00:00.002Z''),
                (''message'',
                 JObj [(''role'', JStr ''assistant''),
                       (''content'', JArr [JObj [(''type'', JStr ''text''), (''text'', JStr ''hi you'')]])])]]
   \<and> appendTranscriptMessages ex_parse ex_stringify ex_append_env ex_fs ''session-1'' ''Hello'' ''hi you''
       = (None,
          [AcquireLock, ReadFile,
           AppendFile (ex_stringify ex_user_entry @ [CHR 0x0A] @ ex_stringify ex_assistant_entry @ [CHR 0x0A]),
           ReleaseLock])
   \<and> length (transcript_lines ex_existing) = 3
   \<and> transcript_lines
         (ex_existing @ appended_text ex_parse ex_stringify ex_append_env ''session-1'' ''Hello''
                          ''hi you'' ex_existing)
       = transcript_lines ex_existing @ [ex_stringify ex_user_entry, ex_stringify ex_assistant_entry]"
proof -
  have hdr: "has_session_header ex_parse ex_existing" by code_simp
  have lst: "last_message_id ex_parse ex_existing = Some ''m-2''" by code_simp
  have env: "userId ex_append_env = ''u-100''" "assistantId ex_append_env = ''a-100''"
    "now_user ex_append_env = ''2026-01-01T00:00:00.000Z''"
    "now_assistant ex_append_env = ''2026-01-01T00:00:00.002Z''"
    by (simp_all add: ex_append_env_def)
  have fs: "lock_error ex_fs = None" "read_result ex_fs = FileContent ex_existing" "append_error ex_fs = None"
    by (simp_all add: ex_fs_def)
  have pre: "\<not> (transcript_lines ex_existing \<noteq> [] \<and> \<not> (ex_existing \<noteq> [] \<and> last ex_existing = CHR 0x0A))"
    by (simp add: ex_existing_def)
  have opt: "(case Some ''m-2'' of None \<Rightarrow> JNull | Some ident \<Rightarrow> JStr ident) = JStr ''m-2''" by simp
  note am = append_two_messages [OF hdr, where tenv = ex_append_env and u = "''Hello''"
      and a = "''hi you''" and sid = "''session-1''" and sfy = ex_stringify and fs = ex_fs,
      unfolded lst env opt, folded ex_user_entry_def ex_assistant_entry_def]
  have three: "length (transcript_lines ex_existing) = 3" by code_simp
  have flat:
    "CHR 0x0A \<notin> set (ex_stringify ex_user_entry)"
    "trim (ex_stringify ex_user_entry) \<noteq> []"
    "CHR 0x0A \<notin> set (ex_stringify ex_assistant_entry)"
    "trim (ex_stringify ex_assistant_entry) \<noteq> []"
    by code_simp+
  have tr: "trim (ex_stringify ex_user_entry) = ex_stringify ex_user_entry"
    "trim (ex_stringify ex_assistant_entry) = ex_stringify ex_assistant_entry"
    by code_simp+
  from am flat have "transcript_lines
         (ex_existing @ appended_text ex_parse ex_stringify ex_append_env ''session-1'' ''Hello''
                          ''hi you'' ex_existing)
      = transcript_lines ex_existing
        @ [trim (ex_stringify ex_user_entry), trim (ex_stringify ex_assistant_entry)]"
    by blast
  then have five: "transcript_lines
         (ex_existing @ appended_text ex_parse ex_stringify ex_append_env ''session-1'' ''Hello''
                          ''hi you'' ex_existing)
       = transcript_lines ex_existing @ [ex_stringify ex_user_entry, ex_stringify ex_assistant_entry]"
    by (simp only: tr)
  from am fs pre have "additions ex_parse ex_append_env ''session-1'' ''Hello'' ''hi you'' ex_existing
       = [ex_user_entry, ex_assistant_entry]
   \<and> appendTranscriptMessages ex_parse ex_stringify ex_append_env ex_fs ''session-1'' ''Hello'' ''hi you''
       = (None,
          [AcquireLock, ReadFile,
           AppendFile (ex_stringify ex_user_entry @ [CHR 0x0A] @ ex_stringify ex_assistant_entry @ [CHR 0x0A]),
           ReleaseLock])"
    by simp
  then have "additions ex_parse ex_append_env ''session-1'' ''Hello'' ''hi you'' ex_existing
       = [JObj [(''type'', JStr ''message''), (''id'', JStr ''u-100''), (''parentId'', JStr ''m-2''),
                (''timestamp'', JStr ''2026-01-01T00:00:00.000Z''),
                (''message'',
                 JObj [(''role'', JStr ''user''),
                       (''content'', JArr [JObj [(''type'', JStr ''text''), (''text'', JStr ''Hello'')]])])],
          JObj [(''type'', JStr ''message''), (''id'', JStr ''a-100''), (''parentId'', JStr ''u-100''),
                (''timestamp'', JStr ''2026-01-01T00:00:00.002Z''),
                (''message'',
                 JObj [(''role'', JStr ''assistant''),
                       (''content'', JArr [JObj [(''type'', JStr ''text''), (''text'', JStr ''hi you'')]])])]]
   \<and> appendTranscriptMessages ex_parse ex_stringify ex_append_env ex_fs ''session-1'' ''Hello'' ''hi you''
       = (None,
          [AcquireLock, ReadFile,
           AppendFile (ex_stringify ex_user_entry @ [CHR 0x0A] @ ex_stringify ex_assistant_entry @ [CHR 0x0A]),
           ReleaseLock])"
    by (simp only: ex_user_entry_def ex_assistant_entry_def)
  with hdr lst three five show ?thesis by blast
qed
end
